theory Spec2Isabelle
  imports Main "HOL-Library.Word"
begin

section \<open>Bytes and characters\<close>

text \<open>
  \<open>std::vector<uint8_t>\<close> is a list of 8-bit words; \<open>std::string\<close> and \<open>char\<close> buffers are
  lists of (8-bit) characters.
\<close>

type_synonym byte = "8 word"

definition NUL :: char where
  "NUL = CHR 0x00"

section \<open>Base64UrlEncode\<close>

subsection \<open>The platform encoder \<open>CryptBinaryToStringA\<close>\<close>

text \<open>
  \<open>CryptBinaryToStringA\<close> with flags \<open>CRYPT_STRING_BASE64 | CRYPT_STRING_NOCRLF\<close> is the
  operating system's standard base64 encoder (RFC 4648 alphabet, \<open>=\<close> padding, no line
  breaks). It is a platform function, modelled from its documented behaviour: called with
  a null output buffer it stores the required size, counting the terminating NUL; called
  with a buffer it writes the text followed by NUL and stores the number of characters
  written, not counting the NUL. Byte counts (\<open>DWORD\<close>) are naturals here.
\<close>

definition base64_alphabet :: string where
  "base64_alphabet =
     ''ABCDEFGHIJKLMNOPQRSTUVWXYZabcdefghijklmnopqrstuvwxyz0123456789+/''"

definition b64_char :: "nat \<Rightarrow> char" where
  "b64_char n = base64_alphabet ! n"

fun base64_text :: "byte list \<Rightarrow> string" where
  "base64_text [] = []"
| "base64_text [a] =
     [b64_char (unat a div 4), b64_char (unat a mod 4 * 16), CHR ''='', CHR ''='']"
| "base64_text [a, b] =
     [b64_char (unat a div 4), b64_char (unat a mod 4 * 16 + unat b div 16),
      b64_char (unat b mod 16 * 4), CHR ''='']"
| "base64_text (a # b # c # rest) =
     [b64_char (unat a div 4), b64_char (unat a mod 4 * 16 + unat b div 16),
      b64_char (unat b mod 16 * 4 + unat c div 64), b64_char (unat c mod 64)]
     @ base64_text rest"

text \<open>
  One call of the platform function: \<open>pszString\<close> is \<open>None\<close> for the null pointer and
  \<open>Some buffer\<close> otherwise; the result is the buffer afterwards and the value stored in
  \<open>*pcchString\<close>.
\<close>

definition CryptBinaryToStringA :: "byte list \<Rightarrow> string option \<Rightarrow> string option \<times> nat" where
  "CryptBinaryToStringA pbBinary pszString =
     (let text = base64_text pbBinary in
      case pszString of
        None \<Rightarrow> (None, length text + 1)
      | Some buffer \<Rightarrow>
          (Some (text @ [NUL] @ drop (length text + 1) buffer), length text))"

subsection \<open>The encoder of the module\<close>

text \<open>
  The loop of \<open>Base64UrlEncode\<close> over the characters of \<open>base64\<close>, appending to \<open>result\<close>.
\<close>

fun base64url_loop :: "string \<Rightarrow> string \<Rightarrow> string" where
  "base64url_loop result [] = result"
| "base64url_loop result (c # cs) =
     (if c = CHR ''+'' then base64url_loop (result @ [CHR ''-'']) cs
      else if c = CHR ''/'' then base64url_loop (result @ [CHR ''_'']) cs
      else if c = CHR ''='' then base64url_loop result cs
      else base64url_loop (result @ [c]) cs)"

definition Base64UrlEncode :: "byte list \<Rightarrow> string" where
  "Base64UrlEncode data =
     (let (_, base64Len) = CryptBinaryToStringA data None;
          base64 = replicate base64Len NUL;
          (written, base64Len) = CryptBinaryToStringA data (Some base64);
          base64 = take base64Len (case written of Some s \<Rightarrow> s | None \<Rightarrow> base64)
      in base64url_loop [] base64)"

subsection \<open>A reference decoder\<close>

text \<open>
  The decoding side of the round trip is not part of the module; it is the standard base64
  decoder, preceded by the two steps the specification names: swapping \<open>-\<close> and \<open>_\<close> back to
  \<open>+\<close> and \<open>/\<close>, and re-adding \<open>=\<close> up to a multiple of four characters.
\<close>

definition b64_value :: "char \<Rightarrow> nat option" where
  "b64_value c = map_of (zip base64_alphabet [0..<64]) c"

definition b64_bytes :: "nat \<Rightarrow> nat \<Rightarrow> nat \<Rightarrow> nat \<Rightarrow> byte list" where
  "b64_bytes s1 s2 s3 s4 =
     [word_of_nat (s1 * 4 + s2 div 16), word_of_nat (s2 mod 16 * 16 + s3 div 4),
      word_of_nat (s3 mod 4 * 64 + s4)]"

fun base64_decode :: "string \<Rightarrow> byte list option" where
  "base64_decode [] = Some []"
| "base64_decode (c1 # c2 # c3 # c4 # rest) =
     (case (b64_value c1, b64_value c2) of
        (Some s1, Some s2) \<Rightarrow>
          if c3 = CHR ''='' \<and> c4 = CHR ''='' \<and> rest = [] then Some (take 1 (b64_bytes s1 s2 0 0))
          else (case b64_value c3 of
             Some s3 \<Rightarrow>
               if c4 = CHR ''='' \<and> rest = [] then Some (take 2 (b64_bytes s1 s2 s3 0))
               else (case (b64_value c4, base64_decode rest) of
                  (Some s4, Some bs) \<Rightarrow> Some (b64_bytes s1 s2 s3 s4 @ bs)
                | _ \<Rightarrow> None)
           | None \<Rightarrow> None)
      | _ \<Rightarrow> None)"
| "base64_decode _ = None"

definition swap_back :: "string \<Rightarrow> string" where
  "swap_back s =
     map (\<lambda>c. if c = CHR ''-'' then CHR ''+'' else if c = CHR ''_'' then CHR ''/'' else c) s"

definition repad :: "string \<Rightarrow> string" where
  "repad s = s @ replicate ((4 - length s mod 4) mod 4) (CHR ''='')"



section \<open>Result sinks and platform calls\<close>

text \<open>
  A \<open>ReactPromise\<close> is settled by \<open>Resolve\<close> or \<open>Reject\<close>; \<open>Reject\<close> carries the code and the
  message of the \<open>ReactError\<close>. A resolved value is a \<open>JSValue\<close>: \<open>nullptr\<close> or a string (the
  string promises of \<open>generateCodeVerifier\<close> and \<open>sha256\<close> only resolve with strings).

  Each operation is modelled by the sequence of platform calls and sink calls it makes, in
  program order. A call event records the arguments that matter and the value the platform
  returned. \<open>OutOfBounds\<close> marks a buffer access outside the buffer, where the behaviour of
  the program is undefined.
\<close>

datatype JSValue = JSNull | JSString string

datatype SOCKET = INVALID_SOCKET | Handle nat

type_synonym NTSTATUS = "32 word"

type_synonym wchar = "16 word"

datatype event =
    Call_BCryptGenRandom nat NTSTATUS
  | Call_BCryptOpenAlgorithmProvider string NTSTATUS
  | Call_BCryptCreateHash NTSTATUS
  | Call_BCryptHashData string NTSTATUS
  | Call_BCryptFinishHash nat NTSTATUS
  | Call_BCryptDestroyHash
  | Call_BCryptCloseAlgorithmProvider
  | Call_WSAStartup int
  | Call_WSACleanup
  | Call_socket SOCKET
  | Call_bind SOCKET "32 word" "16 word" int
  | Call_getsockname SOCKET "16 word"
  | Call_listen SOCKET nat int
  | Call_ShellExecuteW "wchar list"
  | Call_setsockopt_RCVTIMEO SOCKET nat
  | Call_accept SOCKET SOCKET
  | Call_recv SOCKET nat int
  | Call_send SOCKET string int
  | Call_closesocket SOCKET
  | Resolve JSValue
  | Reject string string
  | OutOfBounds

text \<open>
  What the platform answers. The statuses and return values are those of the calls of the
  same name; \<open>rng_stream\<close> is the byte sequence the system random number generator delivers;
  \<open>provider_digest alg data\<close> is the digest the provider of algorithm \<open>alg\<close> computes for
  \<open>data\<close>; \<open>assigned_port\<close> is the port \<open>getsockname\<close> reports (host byte order);
  \<open>peer_bytes\<close> are the bytes of the accepted connection available to the first read;
  \<open>stack_garbage\<close> is the content of the uninitialised receive buffer.
\<close>

record platform =
  GenRandom_status :: NTSTATUS
  rng_stream :: "nat \<Rightarrow> byte"
  OpenAlgorithmProvider_status :: NTSTATUS
  CreateHash_status :: NTSTATUS
  HashData_status :: NTSTATUS
  FinishHash_status :: NTSTATUS
  provider_digest :: "string \<Rightarrow> string \<Rightarrow> byte list"
  WSAStartup_result :: int
  socket_result :: SOCKET
  bind_result :: int
  assigned_port :: "16 word"
  listen_result :: int
  accept_result :: SOCKET
  recv_fails :: bool
  peer_bytes :: string
  send_result :: int
  stack_garbage :: "nat \<Rightarrow> char"


definition SOCKET_ERROR :: int where
  "SOCKET_ERROR = - 1"

definition INADDR_LOOPBACK :: "32 word" where
  "INADDR_LOOPBACK = 0x7f000001"


text \<open>Writing \<open>bytes\<close> at the start of a buffer of fixed size.\<close>

definition write_buffer :: "'a list \<Rightarrow> 'a list \<Rightarrow> 'a list" where
  "write_buffer buffer bytes =
     take (length buffer) bytes @ drop (length bytes) buffer"



definition recv :: "platform \<Rightarrow> string \<Rightarrow> nat \<Rightarrow> int \<times> string" where
  "recv env buf len =
     (if recv_fails env then (SOCKET_ERROR, buf)
      else let data = take len (peer_bytes env)
           in (int (length data), write_buffer buf data))"

section \<open>generateCodeVerifier\<close>


section \<open>sha256\<close>


section \<open>The request-line pattern\<close>

text \<open>
  \<open>std::regex\<close> (ECMAScript grammar) is a library; the part of it the pattern
  \<open>GET\s+(/\S+)\s+HTTP\<close> uses is modelled here: single characters, the classes \<open>\s\<close> and
  \<open>\S\<close>, greedy \<open>+\<close> on a character or class, concatenation and one capture group. A
  matcher returns every way to match a prefix of the subject, in the order a backtracking
  matcher tries them (greedy: longer repetitions first), as the capture and the unmatched
  rest. \<open>regex_search\<close> tries the start positions from left to right and takes the first
  way found. \<open>\s\<close> is \<open>isspace\<close> in the "C" locale.
\<close>

datatype atom = Chr char | Space | NotSpace

datatype regex = Atom atom | Plus atom | Group "regex list"

definition isspace :: "char \<Rightarrow> bool" where
  "isspace c = (c = CHR '' '' \<or> (9 \<le> (of_char c :: nat) \<and> (of_char c :: nat) \<le> 13))"

fun atom_matches :: "atom \<Rightarrow> char \<Rightarrow> bool" where
  "atom_matches (Chr x) c = (c = x)"
| "atom_matches Space c = isspace c"
| "atom_matches NotSpace c = (\<not> isspace c)"

fun plus_rests :: "atom \<Rightarrow> string \<Rightarrow> string list" where
  "plus_rests a [] = []"
| "plus_rests a (c # cs) = (if atom_matches a c then plus_rests a cs @ [cs] else [])"

definition keep_capture :: "string option \<Rightarrow> string option \<times> string \<Rightarrow> string option \<times> string" where
  "keep_capture cap r = (case fst r of None \<Rightarrow> (cap, snd r) | Some x \<Rightarrow> (Some x, snd r))"

fun match_node :: "regex \<Rightarrow> string \<Rightarrow> (string option \<times> string) list"
  and match_seq :: "regex list \<Rightarrow> string \<Rightarrow> (string option \<times> string) list" where
  "match_node (Atom a) s =
     (case s of [] \<Rightarrow> [] | c # cs \<Rightarrow> if atom_matches a c then [(None, cs)] else [])"
| "match_node (Plus a) s = map (\<lambda>r. (None, r)) (plus_rests a s)"
| "match_node (Group rs) s =
     map (\<lambda>r. (Some (take (length s - length (snd r)) s), snd r)) (match_seq rs s)"
| "match_seq [] s = [(None, s)]"
| "match_seq (r # rs) s =
     concat (map (\<lambda>m. map (keep_capture (fst m)) (match_seq rs (snd m))) (match_node r s))"

text \<open>
  The result of a search: \<open>None\<close> when \<open>regex_search\<close> returns false, otherwise the text of
  sub-match 1 (\<open>match[1].str()\<close>, empty for a group that took no part).
\<close>

fun regex_search :: "regex list \<Rightarrow> string \<Rightarrow> string option" where
  "regex_search re s =
     (case match_seq re s of
        m # _ \<Rightarrow> Some (case fst m of Some sub \<Rightarrow> sub | None \<Rightarrow> [])
      | [] \<Rightarrow> (case s of [] \<Rightarrow> None | _ # cs \<Rightarrow> regex_search re cs))"

declare regex_search.simps [simp del]

definition requestLineRegex :: "regex list" where
  "requestLineRegex =
     [Atom (Chr CHR ''G''), Atom (Chr CHR ''E''), Atom (Chr CHR ''T''), Plus Space,
      Group [Atom (Chr CHR ''/''), Plus NotSpace], Plus Space,
      Atom (Chr CHR ''H''), Atom (Chr CHR ''T''), Atom (Chr CHR ''T''), Atom (Chr CHR ''P'')]"

section \<open>authenticate\<close>

subsection \<open>Strings\<close>

text \<open>\<open>std::to_string(int)\<close>: decimal digits, with a sign for negative numbers.\<close>

definition digit_char :: "nat \<Rightarrow> char" where
  "digit_char d = ''0123456789'' ! d"

fun decimal :: "nat \<Rightarrow> string" where
  "decimal n =
     (if n < 10 then [digit_char n] else decimal (n div 10) @ [digit_char (n mod 10)])"

declare decimal.simps [simp del]

definition to_string :: "int \<Rightarrow> string" where
  "to_string i = (if i < 0 then CHR ''-'' # decimal (nat (- i)) else decimal (nat i))"

text \<open>\<open>std::string::find(char)\<close>, with \<open>None\<close> for \<open>npos\<close>, and \<open>substr(pos)\<close>.\<close>

definition find_char :: "string \<Rightarrow> char \<Rightarrow> nat option" where
  "find_char s c = (if c \<in> set s then Some (length (takeWhile (\<lambda>x. x \<noteq> c) s)) else None)"

definition substr :: "string \<Rightarrow> nat \<Rightarrow> string" where
  "substr s pos = drop pos s"

text \<open>
  \<open>std::wstring wUrl(fullUrl.begin(), fullUrl.end())\<close> converts each \<open>char\<close> to \<open>wchar_t\<close>:
  \<open>char\<close> is signed and \<open>wchar_t\<close> is an unsigned 16-bit integer on this platform, so the
  value is sign-extended. \<open>c_str()\<close> hands a NUL-terminated string to a C interface, which
  reads it up to the first NUL.
\<close>

definition widen :: "char \<Rightarrow> wchar" where
  "widen c = scast (of_char c :: 8 word)"

definition c_wstr :: "wchar list \<Rightarrow> wchar list" where
  "c_wstr w = takeWhile (\<lambda>x. x \<noteq> 0) w"

text \<open>
  Reading a \<open>char\<close> buffer as a C string (\<open>std::string request(buf)\<close>) and storing into it
  by index. Outside the buffer both are undefined behaviour: \<open>None\<close>.
\<close>

definition c_str :: "string \<Rightarrow> string option" where
  "c_str buf = (if NUL \<in> set buf then Some (takeWhile (\<lambda>x. x \<noteq> NUL) buf) else None)"

definition store :: "string \<Rightarrow> int \<Rightarrow> char \<Rightarrow> string option" where
  "store buf i c = (if 0 \<le> i \<and> nat i < length buf then Some (buf[nat i := c]) else None)"

definition response :: string where
  "response =
     ''HTTP/1.1 200 OK'' @ [CHR 0x0D, CHR 0x0A] @
     ''Content-Type: text/html'' @ [CHR 0x0D, CHR 0x0A] @
     ''Connection: close'' @ [CHR 0x0D, CHR 0x0A, CHR 0x0D, CHR 0x0A] @
     ''<html><body><p>Authentication complete. You may close this '' @
     ''tab.</p><script>window.close()</script></body></html>''"

subsection \<open>The steps of the background thread\<close>

text \<open>
  \<open>parse_request\<close> is the last part of the thread body: from \<open>std::string request(buf)\<close> on,
  it settles the promise.
\<close>

definition parse_request :: "string \<Rightarrow> string \<Rightarrow> event list" where
  "parse_request callbackScheme request =
     (case regex_search requestLineRegex request of
        Some path \<Rightarrow>
          (case find_char path (CHR ''?'') of
             None \<Rightarrow> [Resolve JSNull]
           | Some qPos \<Rightarrow>
               let callbackUrl = callbackScheme @ ''://callback'' @ substr path qPos
               in [Resolve (JSString callbackUrl)])
      | None \<Rightarrow> [Resolve JSNull])"

definition redirectUri :: "int \<Rightarrow> string" where
  "redirectUri port = ''http://127.0.0.1:'' @ to_string port @ ''/callback''"

definition fullUrl :: "string \<Rightarrow> int \<Rightarrow> string" where
  "fullUrl url port =
     (if find_char url (CHR ''?'') \<noteq> None
      then url @ ''&redirect_uri='' @ redirectUri port
      else url @ ''?redirect_uri='' @ redirectUri port)"

text \<open>
  The body of the thread that \<open>authenticate\<close> starts and detaches. The return values of
  \<open>getsockname\<close>, \<open>ShellExecuteW\<close>, \<open>setsockopt\<close>, \<open>send\<close>, \<open>closesocket\<close> and \<open>WSACleanup\<close>
  are not looked at by the program; \<open>getsockname\<close> stores the port of the bound socket.
\<close>

definition authenticate :: "platform \<Rightarrow> string \<Rightarrow> string \<Rightarrow> event list" where
  "authenticate env url callbackScheme =
     Call_WSAStartup (WSAStartup_result env) #
     (if WSAStartup_result env \<noteq> 0
      then [Reject ''SOCKET_ERROR'' ''Failed to initialize Winsock'']
      else
        let listenSock = socket_result env in
        Call_socket listenSock #
        (if listenSock = INVALID_SOCKET
         then [Call_WSACleanup, Reject ''SOCKET_ERROR'' ''Failed to create socket'']
         else
           Call_bind listenSock INADDR_LOOPBACK 0 (bind_result env) #
           (if bind_result env = SOCKET_ERROR
            then [Call_closesocket listenSock, Call_WSACleanup,
                  Reject ''SOCKET_ERROR'' ''Failed to bind socket'']
            else
              let port = uint (assigned_port env) in
              Call_getsockname listenSock (assigned_port env) #
              Call_listen listenSock 1 (listen_result env) #
              (if listen_result env = SOCKET_ERROR
               then [Call_closesocket listenSock, Call_WSACleanup,
                     Reject ''SOCKET_ERROR'' ''Failed to listen on socket'']
               else
                 let wUrl = map widen (fullUrl url port);
                     timeout = 60000;
                     clientSock = accept_result env
                 in
                 Call_ShellExecuteW (c_wstr wUrl) #
                 Call_setsockopt_RCVTIMEO listenSock timeout #
                 Call_accept listenSock clientSock #
                 (if clientSock = INVALID_SOCKET
                  then [Call_closesocket listenSock, Call_WSACleanup, Resolve JSNull]
                  else
                    let buf = map (stack_garbage env) [0..<4096];
                        (bytesRead, buf) = recv env buf (4096 - 1)
                    in
                    Call_recv clientSock (4096 - 1) bytesRead #
                    (if bytesRead \<le> 0
                     then [Call_closesocket clientSock, Call_closesocket listenSock,
                           Call_WSACleanup, Resolve JSNull]
                     else
                       (case store buf bytesRead NUL of
                          None \<Rightarrow> [OutOfBounds]
                        | Some buf \<Rightarrow>
                            [Call_send clientSock response (send_result env),
                             Call_closesocket clientSock, Call_closesocket listenSock,
                             Call_WSACleanup] @
                            (case c_str buf of
                               None \<Rightarrow> [OutOfBounds]
                             | Some request \<Rightarrow> parse_request callbackScheme request))))))))"

section \<open>Notions used by the properties\<close>

subsection \<open>Settling the promise\<close>

fun is_settlement :: "event \<Rightarrow> bool" where
  "is_settlement (Resolve v) = True"
| "is_settlement (Reject code message) = True"
| "is_settlement e = False"

definition settlements :: "event list \<Rightarrow> event list" where
  "settlements t = filter is_settlement t"

subsection \<open>Sockets and handles that are open\<close>

text \<open>
  \<open>live_sockets t live\<close> follows the sockets that are open along \<open>t\<close>, starting from \<open>live\<close>:
  \<open>socket\<close> and \<open>accept\<close> open the socket they return, \<open>closesocket\<close> closes one. The result
  is \<open>None\<close> when a socket is closed that is not open.
\<close>

fun live_sockets :: "event list \<Rightarrow> SOCKET list \<Rightarrow> SOCKET list option" where
  "live_sockets [] live = Some live"
| "live_sockets (Call_socket s # t) live =
     live_sockets t (if s = INVALID_SOCKET then live else s # live)"
| "live_sockets (Call_accept l s # t) live =
     live_sockets t (if s = INVALID_SOCKET then live else s # live)"
| "live_sockets (Call_closesocket s # t) live =
     (if s \<in> set live then live_sockets t (remove1 s live) else None)"
| "live_sockets (e # t) live = live_sockets t live"



subsection \<open>How far an attempt gets\<close>

text \<open>
  \<open>listener_ready\<close>: the socket library is initialised and the listening socket is created,
  bound and listening. \<open>connection_read\<close>: moreover a connection is accepted and the read
  returns at least one byte. \<open>received_bytes\<close> is what that read delivers and
  \<open>request_seen\<close> is the C string the buffer then holds.
\<close>

definition listener_ready :: "platform \<Rightarrow> bool" where
  "listener_ready env =
     (WSAStartup_result env = 0 \<and> socket_result env \<noteq> INVALID_SOCKET
      \<and> bind_result env \<noteq> SOCKET_ERROR \<and> listen_result env \<noteq> SOCKET_ERROR)"

definition received_bytes :: "platform \<Rightarrow> string" where
  "received_bytes env = take 4095 (peer_bytes env)"

definition connection_read :: "platform \<Rightarrow> bool" where
  "connection_read env =
     (listener_ready env \<and> accept_result env \<noteq> INVALID_SOCKET \<and> \<not> recv_fails env
      \<and> received_bytes env \<noteq> [])"

definition request_seen :: "platform \<Rightarrow> string" where
  "request_seen env = takeWhile (\<lambda>x. x \<noteq> NUL) (received_bytes env)"

text \<open>The events of an attempt up to the read, when a connection is accepted.\<close>

definition events_until_recv :: "platform \<Rightarrow> string \<Rightarrow> event list" where
  "events_until_recv env url =
     [Call_WSAStartup 0,
      Call_socket (socket_result env),
      Call_bind (socket_result env) INADDR_LOOPBACK 0 (bind_result env),
      Call_getsockname (socket_result env) (assigned_port env),
      Call_listen (socket_result env) 1 (listen_result env),
      Call_ShellExecuteW (c_wstr (map widen (fullUrl url (uint (assigned_port env))))),
      Call_setsockopt_RCVTIMEO (socket_result env) 60000,
      Call_accept (socket_result env) (accept_result env)]"

text \<open>
  The pattern matches at the very start of a string; the pattern matches at some position
  of a string.
\<close>

definition begins_with_request_line :: "string \<Rightarrow> bool" where
  "begins_with_request_line s = (match_seq requestLineRegex s \<noteq> [])"

fun contains_request_line :: "string \<Rightarrow> bool" where
  "contains_request_line [] = begins_with_request_line []"
| "contains_request_line (c # cs) =
     (begins_with_request_line (c # cs) \<or> contains_request_line cs)"

text \<open>The lengths that the reads of a trace ask for.\<close>

fun recv_lengths :: "event list \<Rightarrow> nat list" where
  "recv_lengths [] = []"
| "recv_lengths (Call_recv s len r # t) = len # recv_lengths t"
| "recv_lengths (e # t) = recv_lengths t"

text \<open>The wide strings handed to the shell.\<close>

fun opened_urls :: "event list \<Rightarrow> wchar list list" where
  "opened_urls [] = []"
| "opened_urls (Call_ShellExecuteW w # t) = w # opened_urls t"
| "opened_urls (e # t) = opened_urls t"

subsection \<open>A platform on which everything succeeds\<close>

text \<open>
  A concrete platform for the examples: every call succeeds, the listener gets port 51234,
  and the browser sends \<open>bytes\<close>.
\<close>

definition example_platform :: "string \<Rightarrow> platform" where
  "example_platform bytes =
     \<lparr> GenRandom_status = 0, rng_stream = (\<lambda>n. word_of_nat (7 * n + 3)),
       OpenAlgorithmProvider_status = 0, CreateHash_status = 0, HashData_status = 0,
       FinishHash_status = 0,
       provider_digest = (\<lambda>alg data. map (\<lambda>n. word_of_nat (n + length data)) [0..<32]),
       WSAStartup_result = 0, socket_result = Handle 1, bind_result = 0,
       assigned_port = 51234, listen_result = 0, accept_result = Handle 2,
       recv_fails = False, peer_bytes = bytes, send_result = 203,
       stack_garbage = (\<lambda>n. CHR ''x'') \<rparr>"

subsection \<open>Auxiliary notions for the base64 round trip\<close>

definition url_char :: "char \<Rightarrow> char" where
  "url_char c = (if c = CHR ''+'' then CHR ''-'' else if c = CHR ''/'' then CHR ''_'' else c)"

definition unpadded :: "string \<Rightarrow> string" where
  "unpadded s = swap_back (base64url_loop [] s)"

definition renormalise :: "string \<Rightarrow> string" where
  "renormalise s = repad (unpadded s)"

subsection \<open>Example requests\<close>

definition example_request :: string where
  "example_request =
     ''GET /callback?code=abc123&state=xyz HTTP/1.1'' @ [CHR 0x0D, CHR 0x0A, CHR 0x0D, CHR 0x0A]"

text \<open>
  A request whose bytes do not start with a \<open>GET\<close> request line but contain one further on.
\<close>

definition later_request_line :: string where
  "later_request_line = ''POST /token HTTP/1.1 GET /callback?code=1 HTTP/1.1''"

subsection \<open>What it means for the pattern to match\<close>

text \<open>
  The declarative reading of a pattern, against which the backtracking matcher is checked:
  \<open>seq_parses rs m cap\<close> says that the pattern \<open>rs\<close> matches exactly the string \<open>m\<close>, with
  \<open>cap\<close> the text of the capture group (if one took part).
\<close>

inductive node_parses :: "regex \<Rightarrow> string \<Rightarrow> string option \<Rightarrow> bool"
  and seq_parses :: "regex list \<Rightarrow> string \<Rightarrow> string option \<Rightarrow> bool" where
  parses_Atom: "atom_matches a c \<Longrightarrow> node_parses (Atom a) [c] None"
| parses_Plus: "m \<noteq> [] \<Longrightarrow> list_all (atom_matches a) m \<Longrightarrow> node_parses (Plus a) m None"
| parses_Group: "seq_parses rs m cap \<Longrightarrow> node_parses (Group rs) m (Some m)"
| parses_Nil: "seq_parses [] [] None"
| parses_Cons: "node_parses r m1 c1 \<Longrightarrow> seq_parses rs m2 c2 \<Longrightarrow>
     seq_parses (r # rs) (m1 @ m2) (case c2 of None \<Rightarrow> c1 | Some x \<Rightarrow> Some x)"

text \<open>A request line that follows a NUL byte.\<close>

definition request_after_NUL :: string where
  "request_after_NUL = NUL # ''GET /cb?x=1 HTTP''"

section \<open>Properties of the encoder\<close>

lemma b64_table:
  "list_all (\<lambda>n. b64_value (b64_char n) = Some n \<and> b64_char n \<noteq> CHR ''=''
      \<and> b64_char n \<noteq> CHR ''-'' \<and> b64_char n \<noteq> CHR ''_'' \<and> b64_char n \<noteq> NUL) [0..<64]"
  by code_simp

lemma b64_char_facts:
  assumes "n < 64"
  shows "b64_value (b64_char n) = Some n" and "b64_char n \<noteq> CHR ''=''"
    and "b64_char n \<noteq> CHR ''-''" and "b64_char n \<noteq> CHR ''_''" and "b64_char n \<noteq> NUL"
  using assms b64_table by (simp_all add: list_all_iff)

lemma base64url_loop_acc: "base64url_loop result s = result @ base64url_loop [] s"
proof (induction s arbitrary: result)
  case Nil
  show ?case by simp
next
  case (Cons c cs)
  show ?case
    using Cons.IH [of "result @ [CHR ''-'']"] Cons.IH [of "result @ [CHR ''_'']"]
      Cons.IH [of "result @ [c]"] Cons.IH [of "[CHR ''-'']"] Cons.IH [of "[CHR ''_'']"]
      Cons.IH [of "[c]"] Cons.IH [of result]
    by simp
qed

lemma base64url_loop_filter:
  "base64url_loop [] s = map url_char (filter (\<lambda>c. c \<noteq> CHR ''='') s)"
proof (induction s)
  case Nil
  show ?case by simp
next
  case (Cons c cs)
  show ?case
    using Cons.IH base64url_loop_acc [of "[url_char c]" cs]
    by (auto simp: url_char_def)
qed

lemma Base64UrlEncode_text: "Base64UrlEncode data = base64url_loop [] (base64_text data)"
  by (simp add: Base64UrlEncode_def CryptBinaryToStringA_def Let_def)

lemma byte_lt: "unat (a :: byte) < 256"
  using unsigned_less [of a, where ?'a = nat] by simp

lemma recombine_hi:
  assumes "y < 256"
  shows "x div 4 * 4 + (x mod 4 * 16 + y div 16) div 16 = (x::nat)"
proof -
  have "y div 16 < 16" using assms by simp
  then have "(x mod 4 * 16 + y div 16) div 16 = x mod 4" by simp
  then show ?thesis by simp
qed

lemma recombine_mid:
  assumes "y < 256" "z < 256"
  shows "(x mod 4 * 16 + y div 16) mod 16 * 16 + (y mod 16 * 4 + z div 64) div 4 = (y::nat)"
proof -
  have "y div 16 < 16" using assms by simp
  then have a: "(x mod 4 * 16 + y div 16) mod 16 = y div 16" by simp
  have "z div 64 < 4" using assms by simp
  then have b: "(y mod 16 * 4 + z div 64) div 4 = y mod 16" by simp
  show ?thesis unfolding a b by simp
qed

lemma recombine_lo:
  assumes "z < 256"
  shows "(y mod 16 * 4 + z div 64) mod 4 * 64 + z mod 64 = (z::nat)"
proof -
  have "z div 64 < 4" using assms by simp
  then have "(y mod 16 * 4 + z div 64) mod 4 = z div 64" by simp
  then show ?thesis by simp
qed

lemma sextet_bounds:
  fixes a b c :: byte
  shows "unat a div 4 < 64" "unat a mod 4 * 16 < 64" "unat a mod 4 * 16 + unat b div 16 < 64"
    "unat b mod 16 * 4 < 64" "unat b mod 16 * 4 + unat c div 64 < 64" "unat c mod 64 < 64"
proof -
  have lt: "unat a < 256" "unat b < 256" "unat c < 256"
    by (rule byte_lt)+
  have m4: "unat a mod 4 < 4" and m16: "unat b mod 16 < 16" by simp_all
  have d16: "unat b div 16 < 16" and d64: "unat c div 64 < 4" using lt by simp_all
  show "unat a div 4 < 64" using lt by simp
  show "unat a mod 4 * 16 < 64" using m4 by linarith
  show "unat a mod 4 * 16 + unat b div 16 < 64" using m4 d16 by linarith
  show "unat b mod 16 * 4 < 64" using m16 by linarith
  show "unat b mod 16 * 4 + unat c div 64 < 64" using m16 d64 by linarith
  show "unat c mod 64 < 64" by simp
qed

lemma b64_bytes_sextets:
  fixes a b c :: byte
  shows "b64_bytes (unat a div 4) (unat a mod 4 * 16 + unat b div 16)
           (unat b mod 16 * 4 + unat c div 64) (unat c mod 64) = [a, b, c]"
proof -
  have hi: "unat a div 4 * 4 + (unat a mod 4 * 16 + unat b div 16) div 16 = unat a"
    by (rule recombine_hi [OF byte_lt])
  have mid: "(unat a mod 4 * 16 + unat b div 16) mod 16 * 16
      + (unat b mod 16 * 4 + unat c div 64) div 4 = unat b"
    by (rule recombine_mid [OF byte_lt byte_lt])
  have lo: "(unat b mod 16 * 4 + unat c div 64) mod 4 * 64 + unat c mod 64 = unat c"
    by (rule recombine_lo [OF byte_lt])
  show ?thesis unfolding b64_bytes_def hi mid lo by simp
qed

lemma b64_bytes_two:
  fixes a b :: byte
  shows "take 2 (b64_bytes (unat a div 4) (unat a mod 4 * 16 + unat b div 16)
           (unat b mod 16 * 4) 0) = [a, b]"
  using b64_bytes_sextets [of a b 0] by simp

lemma b64_bytes_one:
  fixes a :: byte
  shows "take 1 (b64_bytes (unat a div 4) (unat a mod 4 * 16) 0 0) = [a]"
  using b64_bytes_sextets [of a 0 0] by (simp add: b64_bytes_def)


lemma unpadded_Nil: "unpadded [] = []"
  by (simp add: unpadded_def swap_back_def)

lemma unpadded_pad: "unpadded (CHR ''='' # t) = unpadded t"
  by (simp add: unpadded_def)

lemma unpadded_Cons:
  assumes "c \<noteq> CHR ''=''" "c \<noteq> CHR ''-''" "c \<noteq> CHR ''_''"
  shows "unpadded (c # t) = c # unpadded t"
proof -
  have "base64url_loop [] (c # t) = url_char c # base64url_loop [] t"
    using assms(1) by (simp only: base64url_loop_filter) simp
  moreover have "swap_back (url_char c # xs) = c # swap_back xs" for xs
    using assms(2,3) by (simp add: swap_back_def url_char_def)
  ultimately show ?thesis by (simp add: unpadded_def)
qed

lemma unpadded_b64: "n < 64 \<Longrightarrow> unpadded (b64_char n # t) = b64_char n # unpadded t"
  using b64_char_facts(2,3,4) [of n] by (rule unpadded_Cons)

lemma repad_group: "repad (c1 # c2 # c3 # c4 # s) = c1 # c2 # c3 # c4 # repad s"
  by (simp add: repad_def)

lemma renormalise_group:
  assumes "n1 < 64" "n2 < 64" "n3 < 64" "n4 < 64"
  shows "renormalise (b64_char n1 # b64_char n2 # b64_char n3 # b64_char n4 # t)
         = b64_char n1 # b64_char n2 # b64_char n3 # b64_char n4 # renormalise t"
  using assms by (simp add: renormalise_def unpadded_b64 repad_group)

lemma renormalise_pad2:
  assumes "n1 < 64" "n2 < 64"
  shows "renormalise [b64_char n1, b64_char n2, CHR ''='', CHR ''='']
         = [b64_char n1, b64_char n2, CHR ''='', CHR ''='']"
  using assms
  by (simp add: renormalise_def unpadded_b64 unpadded_pad unpadded_Nil repad_def
      numeral_2_eq_2)

lemma renormalise_pad1:
  assumes "n1 < 64" "n2 < 64" "n3 < 64"
  shows "renormalise [b64_char n1, b64_char n2, b64_char n3, CHR ''='']
         = [b64_char n1, b64_char n2, b64_char n3, CHR ''='']"
  using assms
  by (simp add: renormalise_def unpadded_b64 unpadded_pad unpadded_Nil repad_def)

lemma base64_decode_group:
  assumes "n1 < 64" "n2 < 64" "n3 < 64" "n4 < 64"
  shows "base64_decode (b64_char n1 # b64_char n2 # b64_char n3 # b64_char n4 # rest)
         = map_option (\<lambda>bs. b64_bytes n1 n2 n3 n4 @ bs) (base64_decode rest)"
  using assms b64_char_facts(1,2) [of n1] b64_char_facts(1,2) [of n2]
    b64_char_facts(1,2) [of n3] b64_char_facts(1,2) [of n4]
  by (simp split: option.splits)

lemma base64_decode_pad2:
  assumes "n1 < 64" "n2 < 64"
  shows "base64_decode [b64_char n1, b64_char n2, CHR ''='', CHR ''='']
         = Some (take 1 (b64_bytes n1 n2 0 0))"
  using assms b64_char_facts(1) [of n1] b64_char_facts(1) [of n2]
  by simp

lemma base64_decode_pad1:
  assumes "n1 < 64" "n2 < 64" "n3 < 64"
  shows "base64_decode [b64_char n1, b64_char n2, b64_char n3, CHR ''='']
         = Some (take 2 (b64_bytes n1 n2 n3 0))"
  using assms b64_char_facts(1) [of n1] b64_char_facts(1) [of n2] b64_char_facts(1,2) [of n3]
  by simp

lemma base64_roundtrip_text: "base64_decode (renormalise (base64_text data)) = Some data"
proof (induction data rule: base64_text.induct)
  case 1
  show ?case by (simp add: renormalise_def unpadded_Nil repad_def)
next
  case (2 a)
  show ?case
    using sextet_bounds(1,2) [of a]
    by (simp add: renormalise_pad2 base64_decode_pad2 b64_bytes_one [simplified]
        del: base64_decode.simps)
next
  case (3 a b)
  show ?case
    using sextet_bounds(1) [of a] sextet_bounds(3) [of a b] sextet_bounds(4) [of b]
    by (simp add: renormalise_pad1 base64_decode_pad1 b64_bytes_two del: base64_decode.simps)
next
  case (4 a b c rest)
  show ?case
    using sextet_bounds(1) [of a] sextet_bounds(3) [of a b] sextet_bounds(5) [of b c]
      sextet_bounds(6) [of c] "4.IH"
    by (simp add: renormalise_group base64_decode_group b64_bytes_sextets
        del: base64_decode.simps)
qed

text \<open>
  Claim C6. For every byte sequence \<open>b\<close>, the text \<open>Base64UrlEncode b\<close> contains none of the
  characters \<open>+\<close>, \<open>/\<close> and \<open>=\<close>; swapping \<open>-\<close> and \<open>_\<close> back, re-adding the \<open>=\<close> padding and
  decoding with the standard base64 decoder gives exactly \<open>b\<close>; and the empty byte sequence
  is encoded as the empty string. The encoder is a total function: it has a result for
  every input.
\<close>

theorem Base64UrlEncode_roundtrip:
  "CHR ''+'' \<notin> set (Base64UrlEncode b) \<and> CHR ''/'' \<notin> set (Base64UrlEncode b)
   \<and> CHR ''='' \<notin> set (Base64UrlEncode b)
   \<and> base64_decode (repad (swap_back (Base64UrlEncode b))) = Some b
   \<and> Base64UrlEncode [] = []"
proof -
  have "CHR ''+'' \<notin> set (Base64UrlEncode b)" "CHR ''/'' \<notin> set (Base64UrlEncode b)"
    "CHR ''='' \<notin> set (Base64UrlEncode b)"
    by (auto simp: Base64UrlEncode_text base64url_loop_filter url_char_def)
  moreover have "base64_decode (repad (swap_back (Base64UrlEncode b))) = Some b"
    using base64_roundtrip_text [of b]
    by (simp add: Base64UrlEncode_text renormalise_def unpadded_def)
  moreover have "Base64UrlEncode [] = []"
    by (simp add: Base64UrlEncode_text)
  ultimately show ?thesis by simp
qed

theorem Base64UrlEncode_roundtrip_witness:
  "Base64UrlEncode [0xfb, 0xff, 0xfe, 0x4d] = ''-__-TQ''
   \<and> base64_decode (repad (swap_back ''-__-TQ'')) = Some [0xfb, 0xff, 0xfe, 0x4d]"
proof -
  have e: "Base64UrlEncode [0xfb, 0xff, 0xfe, 0x4d] = ''-__-TQ''"
    by code_simp
  show ?thesis
    using Base64UrlEncode_roundtrip [of "[0xfb, 0xff, 0xfe, 0x4d]"]
    unfolding e by simp
qed

section \<open>The paths of authenticate\<close>

text \<open>
  The receive buffer: the read leaves room for the terminator, so the store of NUL is inside
  the buffer and the C string read back ends inside it.
\<close>

lemma write_buffer_short:
  assumes "length d \<le> length buf"
  shows "write_buffer buf d = d @ drop (length d) buf"
  using assms by (simp add: write_buffer_def)

lemma store_terminator:
  assumes "length d < length buf"
  shows "store (write_buffer buf d) (int (length d)) NUL
         = Some (d @ NUL # drop (Suc (length d)) buf)"
proof -
  have wb: "write_buffer buf d = d @ drop (length d) buf"
    using assms by (simp add: write_buffer_short)
  have "drop (length d) buf = buf ! length d # drop (Suc (length d)) buf"
    using assms by (simp add: Cons_nth_drop_Suc)
  then have "(d @ drop (length d) buf)[length d := NUL] = d @ NUL # drop (Suc (length d)) buf"
    by (simp add: list_update_append)
  then show ?thesis
    using assms by (simp add: store_def wb)
qed

lemma takeWhile_until: "takeWhile (\<lambda>x. x \<noteq> c) (d @ c # rest) = takeWhile (\<lambda>x. x \<noteq> c) d"
  by (induction d) simp_all

lemma c_str_terminated:
  "c_str (d @ NUL # rest) = Some (takeWhile (\<lambda>x. x \<noteq> NUL) d)"
  by (simp add: c_str_def takeWhile_until)

lemma received_short: "length (received_bytes env) < 4096"
  by (simp add: received_bytes_def)

lemma recv_delivers:
  assumes "\<not> recv_fails env" "length buf = 4096"
  shows "recv env buf 4095
         = (int (length (received_bytes env)), write_buffer buf (received_bytes env))"
  using assms by (simp add: recv_def received_bytes_def Let_def)

lemma read_request:
  assumes "\<not> recv_fails env" "received_bytes env \<noteq> []" "length buf = 4096"
    and "recv env buf 4095 = (bytesRead, buf')"
  shows "0 < bytesRead" "bytesRead = int (length (received_bytes env))"
    and "\<exists>terminated. store buf' bytesRead NUL = Some terminated
           \<and> c_str terminated = Some (request_seen env)"
proof -
  have r: "bytesRead = int (length (received_bytes env))"
      "buf' = write_buffer buf (received_bytes env)"
    using recv_delivers [OF assms(1,3)] assms(4) by simp_all
  show "bytesRead = int (length (received_bytes env))" by (rule r(1))
  show "0 < bytesRead" using r(1) assms(2) by simp
  have "length (received_bytes env) < length buf"
    using received_short [of env] assms(3) by simp
  from store_terminator [OF this]
  show "\<exists>terminated. store buf' bytesRead NUL = Some terminated
           \<and> c_str terminated = Some (request_seen env)"
    unfolding r by (simp add: c_str_terminated request_seen_def)
qed

lemma authenticate_read:
  assumes "connection_read env"
  shows "authenticate env url callbackScheme =
         events_until_recv env url @
         [Call_recv (accept_result env) 4095 (int (length (received_bytes env))),
          Call_send (accept_result env) response (send_result env),
          Call_closesocket (accept_result env), Call_closesocket (socket_result env),
          Call_WSACleanup] @
         parse_request callbackScheme (request_seen env)"
proof -
  define buf where "buf = map (stack_garbage env) [0..<4096]"
  have len: "length buf = 4096" by (simp add: buf_def)
  obtain bytesRead buf' where rv: "recv env buf 4095 = (bytesRead, buf')"
    by (cases "recv env buf 4095")
  have nf: "\<not> recv_fails env" and ne: "received_bytes env \<noteq> []"
    using assms by (simp_all add: connection_read_def)
  note rr = read_request [OF nf ne len rv]
  obtain terminated where t: "store buf' bytesRead NUL = Some terminated"
      "c_str terminated = Some (request_seen env)"
    using rr(3) by blast
  have ready: "WSAStartup_result env = 0" "socket_result env \<noteq> INVALID_SOCKET"
    "bind_result env \<noteq> SOCKET_ERROR" "listen_result env \<noteq> SOCKET_ERROR"
    "accept_result env \<noteq> INVALID_SOCKET"
    using assms by (simp_all add: connection_read_def listener_ready_def)
  show ?thesis
    unfolding authenticate_def Let_def buf_def [symmetric]
    using ready rr(1) rr(2) t
    by (simp add: rv events_until_recv_def)
qed


lemma parse_request_single: "\<exists>v. parse_request callbackScheme request = [Resolve v]"
  by (simp add: parse_request_def Let_def split: option.splits)

lemma authenticate_startup_fails:
  assumes "WSAStartup_result env \<noteq> 0"
  shows "authenticate env url callbackScheme =
         [Call_WSAStartup (WSAStartup_result env),
          Reject ''SOCKET_ERROR'' ''Failed to initialize Winsock'']"
  using assms by (simp add: authenticate_def Let_def)

lemma authenticate_socket_fails:
  assumes "WSAStartup_result env = 0" "socket_result env = INVALID_SOCKET"
  shows "authenticate env url callbackScheme =
         [Call_WSAStartup 0, Call_socket INVALID_SOCKET, Call_WSACleanup,
          Reject ''SOCKET_ERROR'' ''Failed to create socket'']"
  using assms by (simp add: authenticate_def Let_def)

lemma authenticate_bind_fails:
  assumes "WSAStartup_result env = 0" "socket_result env \<noteq> INVALID_SOCKET"
    "bind_result env = SOCKET_ERROR"
  shows "authenticate env url callbackScheme =
         [Call_WSAStartup 0, Call_socket (socket_result env),
          Call_bind (socket_result env) INADDR_LOOPBACK 0 SOCKET_ERROR,
          Call_closesocket (socket_result env), Call_WSACleanup,
          Reject ''SOCKET_ERROR'' ''Failed to bind socket'']"
  using assms by (simp add: authenticate_def Let_def)

lemma authenticate_listen_fails:
  assumes "WSAStartup_result env = 0" "socket_result env \<noteq> INVALID_SOCKET"
    "bind_result env \<noteq> SOCKET_ERROR" "listen_result env = SOCKET_ERROR"
  shows "authenticate env url callbackScheme =
         [Call_WSAStartup 0, Call_socket (socket_result env),
          Call_bind (socket_result env) INADDR_LOOPBACK 0 (bind_result env),
          Call_getsockname (socket_result env) (assigned_port env),
          Call_listen (socket_result env) 1 SOCKET_ERROR,
          Call_closesocket (socket_result env), Call_WSACleanup,
          Reject ''SOCKET_ERROR'' ''Failed to listen on socket'']"
  using assms by (simp add: authenticate_def Let_def)

lemma authenticate_accept_fails:
  assumes "listener_ready env" "accept_result env = INVALID_SOCKET"
  shows "authenticate env url callbackScheme =
         events_until_recv env url @
         [Call_closesocket (socket_result env), Call_WSACleanup, Resolve JSNull]"
  using assms by (simp add: authenticate_def Let_def listener_ready_def events_until_recv_def)

lemma recv_nothing:
  assumes "recv_fails env \<or> received_bytes env = []"
  shows "fst (recv env buf 4095) = (if recv_fails env then SOCKET_ERROR else 0)"
  using assms by (auto simp: recv_def received_bytes_def Let_def)

lemma authenticate_recv_nothing:
  assumes "listener_ready env" "accept_result env \<noteq> INVALID_SOCKET"
    "recv_fails env \<or> received_bytes env = []"
  shows "authenticate env url callbackScheme =
         events_until_recv env url @
         [Call_recv (accept_result env) 4095 (if recv_fails env then SOCKET_ERROR else 0),
          Call_closesocket (accept_result env), Call_closesocket (socket_result env),
          Call_WSACleanup, Resolve JSNull]"
proof -
  define buf where "buf = map (stack_garbage env) [0..<4096]"
  obtain bytesRead buf' where rv: "recv env buf 4095 = (bytesRead, buf')"
    by (cases "recv env buf 4095")
  have br: "bytesRead = (if recv_fails env then SOCKET_ERROR else 0)"
    using recv_nothing [OF assms(3), of buf] rv by simp
  then have "bytesRead \<le> 0" by (simp add: SOCKET_ERROR_def)
  then show ?thesis
    unfolding authenticate_def Let_def buf_def [symmetric]
    using assms(1,2) br
    by (simp add: rv events_until_recv_def listener_ready_def)
qed

section \<open>The matcher and the meaning of the pattern\<close>

text \<open>
  The backtracking matcher finds exactly the matches of the declarative reading: a result
  \<open>(cap, r)\<close> of \<open>match_seq rs s\<close> is a split of \<open>s\<close> into a string the pattern matches, with
  capture \<open>cap\<close>, and the rest \<open>r\<close>. For the request-line pattern this reading is: \<open>GET\<close>,
  white space, a path that is \<open>/\<close> followed by at least one character that is not white
  space, white space, \<open>HTTP\<close>; the capture is the path.
\<close>

lemma plus_rests_iff:
  "(r \<in> set (plus_rests a s)) = (\<exists>m. m \<noteq> [] \<and> s = m @ r \<and> list_all (atom_matches a) m)"
proof (induction s)
  case Nil
  show ?case by simp
next
  case (Cons c cs)
  show ?case
  proof (cases "atom_matches a c")
    case False
    have "\<not> (\<exists>m. m \<noteq> [] \<and> c # cs = m @ r \<and> list_all (atom_matches a) m)"
    proof
      assume "\<exists>m. m \<noteq> [] \<and> c # cs = m @ r \<and> list_all (atom_matches a) m"
      then obtain m where m: "m \<noteq> []" "c # cs = m @ r" "list_all (atom_matches a) m" by blast
      then obtain m' where "m = c # m'" by (cases m) auto
      then show False using m(3) False by simp
    qed
    then show ?thesis using False by simp
  next
    case True
    have "(\<exists>m. m \<noteq> [] \<and> c # cs = m @ r \<and> list_all (atom_matches a) m)
          = (r = cs \<or> (\<exists>m. m \<noteq> [] \<and> cs = m @ r \<and> list_all (atom_matches a) m))"
    proof
      assume "\<exists>m. m \<noteq> [] \<and> c # cs = m @ r \<and> list_all (atom_matches a) m"
      then obtain m where m: "m \<noteq> []" "c # cs = m @ r" "list_all (atom_matches a) m" by blast
      then obtain m' where m': "m = c # m'" by (cases m) auto
      show "r = cs \<or> (\<exists>m. m \<noteq> [] \<and> cs = m @ r \<and> list_all (atom_matches a) m)"
      proof (cases "m' = []")
        case True
        then show ?thesis using m m' by simp
      next
        case False
        then have "m' \<noteq> [] \<and> cs = m' @ r \<and> list_all (atom_matches a) m'"
          using m m' by simp
        then show ?thesis by blast
      qed
    next
      assume "r = cs \<or> (\<exists>m. m \<noteq> [] \<and> cs = m @ r \<and> list_all (atom_matches a) m)"
      then show "\<exists>m. m \<noteq> [] \<and> c # cs = m @ r \<and> list_all (atom_matches a) m"
      proof
        assume "r = cs"
        then have "[c] \<noteq> [] \<and> c # cs = [c] @ r \<and> list_all (atom_matches a) [c]"
          using True by simp
        then show ?thesis by blast
      next
        assume "\<exists>m. m \<noteq> [] \<and> cs = m @ r \<and> list_all (atom_matches a) m"
        then obtain m where "m \<noteq> []" "cs = m @ r" "list_all (atom_matches a) m" by blast
        then have "c # m \<noteq> [] \<and> c # cs = (c # m) @ r \<and> list_all (atom_matches a) (c # m)"
          using True by simp
        then show ?thesis by blast
      qed
    qed
    then show ?thesis using True Cons.IH by auto
  qed
qed

lemma match_sound:
  "(cap, r) \<in> set (match_node re s) \<Longrightarrow> \<exists>m. s = m @ r \<and> node_parses re m cap"
  "(cap, r) \<in> set (match_seq rs s) \<Longrightarrow> \<exists>m. s = m @ r \<and> seq_parses rs m cap"
proof (induction re s and rs s arbitrary: cap r and cap r rule: match_node_match_seq.induct)
  case (1 a s)
  then obtain c where "s = c # r" "atom_matches a c" "cap = None"
    by (auto split: list.splits if_splits)
  then have "s = [c] @ r \<and> node_parses (Atom a) [c] cap"
    by (simp add: parses_Atom)
  then show ?case by blast
next
  case (2 a s)
  then have "cap = None" "r \<in> set (plus_rests a s)" by auto
  then obtain m where "m \<noteq> []" "s = m @ r" "list_all (atom_matches a) m"
    using plus_rests_iff by blast
  then have "s = m @ r \<and> node_parses (Plus a) m cap"
    using \<open>cap = None\<close> by (simp add: parses_Plus)
  then show ?case by blast
next
  case (3 rs s)
  then obtain cap' where in_seq: "(cap', r) \<in> set (match_seq rs s)"
    and cap: "cap = Some (take (length s - length r) s)"
    by auto
  from "3.IH" [OF in_seq] obtain m where m: "s = m @ r" "seq_parses rs m cap'" by blast
  then have "cap = Some m" using cap by simp
  then have "s = m @ r \<and> node_parses (Group rs) m cap"
    using m by (simp add: parses_Group)
  then show ?case by blast
next
  case (4 s)
  then have "s = [] @ r \<and> seq_parses [] [] cap" by (simp add: parses_Nil)
  then show ?case by blast
next
  case (5 re rs s)
  from "5.prems" obtain c1 s1 c2 where first: "(c1, s1) \<in> set (match_node re s)"
    and rest: "(c2, r) \<in> set (match_seq rs s1)"
    and cap: "cap = (case c2 of None \<Rightarrow> c1 | Some x \<Rightarrow> Some x)"
    by (auto simp: keep_capture_def split: option.splits)
  from "5.IH"(1) [OF first] obtain m1 where m1: "s = m1 @ s1" "node_parses re m1 c1" by blast
  from "5.IH"(2) [of "(c1, s1)" c2 r] first rest
  obtain m2 where m2: "s1 = m2 @ r" "seq_parses rs m2 c2"
    by auto
  have "s = (m1 @ m2) @ r \<and> seq_parses (re # rs) (m1 @ m2) cap"
    using m1 m2 cap parses_Cons [OF m1(2) m2(2)] by simp
  then show ?case by blast
qed

lemma match_complete:
  "node_parses re m cap \<Longrightarrow> (cap, r) \<in> set (match_node re (m @ r))"
  "seq_parses rs m cap \<Longrightarrow> (cap, r) \<in> set (match_seq rs (m @ r))"
proof (induction re m cap and rs m cap arbitrary: r and r rule: node_parses_seq_parses.inducts)
  case (parses_Atom a c)
  then show ?case by simp
next
  case (parses_Plus m a)
  then have "r \<in> set (plus_rests a (m @ r))"
    using plus_rests_iff by blast
  then show ?case by auto
next
  case (parses_Group rs m cap)
  have "(cap, r) \<in> set (match_seq rs (m @ r))" by (rule parses_Group.IH)
  then have "(Some (take (length (m @ r) - length (snd (cap, r))) (m @ r)), snd (cap, r))
      \<in> set (match_node (Group rs) (m @ r))"
    unfolding match_node.simps set_map by (rule imageI)
  then show ?case by simp
next
  case parses_Nil
  show ?case by simp
next
  case (parses_Cons re m1 c1 rs m2 c2)
  have a: "(c1, m2 @ r) \<in> set (match_node re (m1 @ m2 @ r))" by (rule parses_Cons.IH(1))
  have b: "(c2, r) \<in> set (match_seq rs (m2 @ r))" by (rule parses_Cons.IH(2))
  have "keep_capture c1 (c2, r) = (case c2 of None \<Rightarrow> c1 | Some x \<Rightarrow> Some x, r)"
    by (simp add: keep_capture_def split: option.splits)
  then have "(case c2 of None \<Rightarrow> c1 | Some x \<Rightarrow> Some x, r)
      \<in> set (map (keep_capture c1) (match_seq rs (m2 @ r)))"
    using b by force
  then show ?case using a by force
qed

lemma match_seq_iff:
  "((cap, r) \<in> set (match_seq rs s)) = (\<exists>m. s = m @ r \<and> seq_parses rs m cap)"
  using match_sound(2) match_complete(2) by blast


inductive_cases seq_parses_NilE: "seq_parses [] m cap"
inductive_cases seq_parses_ConsE: "seq_parses (r # rs) m cap"
inductive_cases node_parses_AtomE: "node_parses (Atom a) m cap"
inductive_cases node_parses_PlusE: "node_parses (Plus a) m cap"
inductive_cases node_parses_GroupE: "node_parses (Group rs) m cap"

lemma later_capture_None: "(case c of None \<Rightarrow> None | Some x \<Rightarrow> Some x) = c"
  by (cases c) simp_all

lemma seq_parses_Nil_iff: "seq_parses [] m cap = (m = [] \<and> cap = None)"
  by (auto elim: seq_parses_NilE intro: parses_Nil)

lemma seq_parses_Chr:
  "seq_parses (Atom (Chr x) # rs) m cap = (\<exists>m'. m = x # m' \<and> seq_parses rs m' cap)"
proof
  assume "seq_parses (Atom (Chr x) # rs) m cap"
  then obtain m1 c1 m2 c2 where p: "m = m1 @ m2"
      "cap = (case c2 of None \<Rightarrow> c1 | Some x \<Rightarrow> Some x)"
      "node_parses (Atom (Chr x)) m1 c1" "seq_parses rs m2 c2"
    by (auto elim: seq_parses_ConsE)
  from p(3) have "m1 = [x]" "c1 = None" by (auto elim: node_parses_AtomE)
  then have "m = x # m2 \<and> seq_parses rs m2 cap"
    using p by (cases c2) simp_all
  then show "\<exists>m'. m = x # m' \<and> seq_parses rs m' cap" by blast
next
  assume "\<exists>m'. m = x # m' \<and> seq_parses rs m' cap"
  then obtain m' where m': "m = x # m'" "seq_parses rs m' cap" by blast
  have "node_parses (Atom (Chr x)) [x] None" by (rule parses_Atom) simp
  from parses_Cons [OF this m'(2)] show "seq_parses (Atom (Chr x) # rs) m cap"
    using m'(1) by (simp add: later_capture_None)
qed

lemma seq_parses_Plus:
  "seq_parses (Plus a # rs) m cap =
     (\<exists>w m'. m = w @ m' \<and> w \<noteq> [] \<and> list_all (atom_matches a) w \<and> seq_parses rs m' cap)"
proof
  assume "seq_parses (Plus a # rs) m cap"
  then obtain m1 c1 m2 c2 where p: "m = m1 @ m2"
      "cap = (case c2 of None \<Rightarrow> c1 | Some x \<Rightarrow> Some x)"
      "node_parses (Plus a) m1 c1" "seq_parses rs m2 c2"
    by (auto elim: seq_parses_ConsE)
  from p(3) have "m1 \<noteq> []" "list_all (atom_matches a) m1" "c1 = None"
    by (auto elim: node_parses_PlusE)
  then have "m = m1 @ m2 \<and> m1 \<noteq> [] \<and> list_all (atom_matches a) m1 \<and> seq_parses rs m2 cap"
    using p by (cases c2) simp_all
  then show "\<exists>w m'. m = w @ m' \<and> w \<noteq> [] \<and> list_all (atom_matches a) w
      \<and> seq_parses rs m' cap"
    by blast
next
  assume "\<exists>w m'. m = w @ m' \<and> w \<noteq> [] \<and> list_all (atom_matches a) w \<and> seq_parses rs m' cap"
  then obtain w m' where w: "m = w @ m'" "w \<noteq> []" "list_all (atom_matches a) w"
      "seq_parses rs m' cap"
    by blast
  have "node_parses (Plus a) w None" using w(2,3) by (rule parses_Plus)
  from parses_Cons [OF this w(4)] show "seq_parses (Plus a # rs) m cap"
    using w(1) by (simp add: later_capture_None)
qed

lemma seq_parses_Group:
  "seq_parses (Group gs # rs) m cap =
     (\<exists>g m' c c2. m = g @ m' \<and> seq_parses gs g c \<and> seq_parses rs m' c2
        \<and> cap = (case c2 of None \<Rightarrow> Some g | Some x \<Rightarrow> Some x))"
proof
  assume "seq_parses (Group gs # rs) m cap"
  then obtain m1 c1 m2 c2 where p: "m = m1 @ m2"
      "cap = (case c2 of None \<Rightarrow> c1 | Some x \<Rightarrow> Some x)"
      "node_parses (Group gs) m1 c1" "seq_parses rs m2 c2"
    by (auto elim: seq_parses_ConsE)
  from p(3) obtain c where "seq_parses gs m1 c" "c1 = Some m1"
    by (auto elim: node_parses_GroupE)
  then have "m = m1 @ m2 \<and> seq_parses gs m1 c \<and> seq_parses rs m2 c2
        \<and> cap = (case c2 of None \<Rightarrow> Some m1 | Some x \<Rightarrow> Some x)"
    using p by (cases c2) simp_all
  then show "\<exists>g m' c c2. m = g @ m' \<and> seq_parses gs g c \<and> seq_parses rs m' c2
        \<and> cap = (case c2 of None \<Rightarrow> Some g | Some x \<Rightarrow> Some x)"
    by blast
next
  assume "\<exists>g m' c c2. m = g @ m' \<and> seq_parses gs g c \<and> seq_parses rs m' c2
        \<and> cap = (case c2 of None \<Rightarrow> Some g | Some x \<Rightarrow> Some x)"
  then obtain g m' c c2 where g: "m = g @ m'" "seq_parses gs g c" "seq_parses rs m' c2"
      "cap = (case c2 of None \<Rightarrow> Some g | Some x \<Rightarrow> Some x)"
    by blast
  have "node_parses (Group gs) g (Some g)" using g(2) by (rule parses_Group)
  from parses_Cons [OF this g(3)] show "seq_parses (Group gs # rs) m cap"
    using g(1,4) by simp
qed

lemma path_parses:
  "seq_parses [Atom (Chr CHR ''/''), Plus NotSpace] g c =
     (\<exists>q. g = CHR ''/'' # q \<and> q \<noteq> [] \<and> list_all (\<lambda>x. \<not> isspace x) q \<and> c = None)"
proof -
  have "atom_matches NotSpace = (\<lambda>x. \<not> isspace x)" by (rule ext) simp
  then show ?thesis
    by (simp add: seq_parses_Chr seq_parses_Plus seq_parses_Nil_iff)
qed

lemma tail_parses:
  "seq_parses [Plus Space, Atom (Chr CHR ''H''), Atom (Chr CHR ''T''), Atom (Chr CHR ''T''),
       Atom (Chr CHR ''P'')] m c =
     (\<exists>ws. m = ws @ ''HTTP'' \<and> ws \<noteq> [] \<and> list_all isspace ws \<and> c = None)"
proof -
  have "atom_matches Space = isspace" by (rule ext) simp
  then show ?thesis
    by (simp add: seq_parses_Chr seq_parses_Plus seq_parses_Nil_iff)
qed

lemma path_then_tail_parses:
  "seq_parses (Group [Atom (Chr CHR ''/''), Plus NotSpace] #
        [Plus Space, Atom (Chr CHR ''H''), Atom (Chr CHR ''T''), Atom (Chr CHR ''T''),
         Atom (Chr CHR ''P'')]) m cap =
      (\<exists>q ws2. m = (CHR ''/'' # q) @ ws2 @ ''HTTP''
        \<and> q \<noteq> [] \<and> list_all (\<lambda>x. \<not> isspace x) q
        \<and> ws2 \<noteq> [] \<and> list_all isspace ws2
        \<and> cap = Some (CHR ''/'' # q))"
proof
  assume "seq_parses (Group [Atom (Chr CHR ''/''), Plus NotSpace] #
        [Plus Space, Atom (Chr CHR ''H''), Atom (Chr CHR ''T''), Atom (Chr CHR ''T''),
         Atom (Chr CHR ''P'')]) m cap"
  then obtain g m' c c2 where g: "m = g @ m'"
      "seq_parses [Atom (Chr CHR ''/''), Plus NotSpace] g c"
      "seq_parses [Plus Space, Atom (Chr CHR ''H''), Atom (Chr CHR ''T''),
         Atom (Chr CHR ''T''), Atom (Chr CHR ''P'')] m' c2"
      "cap = (case c2 of None \<Rightarrow> Some g | Some x \<Rightarrow> Some x)"
    unfolding seq_parses_Group by blast
  from g(2) obtain q where q: "g = CHR ''/'' # q" "q \<noteq> []" "list_all (\<lambda>x. \<not> isspace x) q"
    unfolding path_parses by blast
  from g(3) obtain ws where ws: "m' = ws @ ''HTTP''" "ws \<noteq> []" "list_all isspace ws"
      "c2 = None"
    unfolding tail_parses by blast
  have "m = (CHR ''/'' # q) @ ws @ ''HTTP'' \<and> q \<noteq> [] \<and> list_all (\<lambda>x. \<not> isspace x) q
        \<and> ws \<noteq> [] \<and> list_all isspace ws \<and> cap = Some (CHR ''/'' # q)"
    using g(1,4) q ws by simp
  then show "\<exists>q ws2. m = (CHR ''/'' # q) @ ws2 @ ''HTTP''
        \<and> q \<noteq> [] \<and> list_all (\<lambda>x. \<not> isspace x) q
        \<and> ws2 \<noteq> [] \<and> list_all isspace ws2
        \<and> cap = Some (CHR ''/'' # q)"
    by blast
next
  assume "\<exists>q ws2. m = (CHR ''/'' # q) @ ws2 @ ''HTTP''
        \<and> q \<noteq> [] \<and> list_all (\<lambda>x. \<not> isspace x) q
        \<and> ws2 \<noteq> [] \<and> list_all isspace ws2
        \<and> cap = Some (CHR ''/'' # q)"
  then obtain q ws2 where a: "m = (CHR ''/'' # q) @ ws2 @ ''HTTP''" "q \<noteq> []"
      "list_all (\<lambda>x. \<not> isspace x) q" "ws2 \<noteq> []" "list_all isspace ws2"
      "cap = Some (CHR ''/'' # q)"
    by blast
  have 1: "seq_parses [Atom (Chr CHR ''/''), Plus NotSpace] (CHR ''/'' # q) None"
    unfolding path_parses using a(2,3) by simp
  have 2: "seq_parses [Plus Space, Atom (Chr CHR ''H''), Atom (Chr CHR ''T''),
         Atom (Chr CHR ''T''), Atom (Chr CHR ''P'')] (ws2 @ ''HTTP'') None"
    unfolding tail_parses using a(4,5) by simp
  have "m = (CHR ''/'' # q) @ (ws2 @ ''HTTP'')
      \<and> seq_parses [Atom (Chr CHR ''/''), Plus NotSpace] (CHR ''/'' # q) None
      \<and> seq_parses [Plus Space, Atom (Chr CHR ''H''), Atom (Chr CHR ''T''),
         Atom (Chr CHR ''T''), Atom (Chr CHR ''P'')] (ws2 @ ''HTTP'') None
      \<and> cap = (case None of None \<Rightarrow> Some (CHR ''/'' # q) | Some x \<Rightarrow> Some x)"
    using a(1,6) 1 2 by simp
  then show "seq_parses (Group [Atom (Chr CHR ''/''), Plus NotSpace] #
        [Plus Space, Atom (Chr CHR ''H''), Atom (Chr CHR ''T''), Atom (Chr CHR ''T''),
         Atom (Chr CHR ''P'')]) m cap"
    unfolding seq_parses_Group by blast
qed

lemma request_line_parses:
  "seq_parses requestLineRegex m cap =
     (\<exists>ws1 q ws2. m = ''GET'' @ ws1 @ (CHR ''/'' # q) @ ws2 @ ''HTTP''
        \<and> ws1 \<noteq> [] \<and> list_all isspace ws1
        \<and> q \<noteq> [] \<and> list_all (\<lambda>x. \<not> isspace x) q
        \<and> ws2 \<noteq> [] \<and> list_all isspace ws2
        \<and> cap = Some (CHR ''/'' # q))"
proof -
  have sp: "atom_matches Space = isspace" by (rule ext) simp
  have head: "seq_parses requestLineRegex m cap =
      (\<exists>m3. m = ''GET'' @ m3 \<and>
         seq_parses (Plus Space # Group [Atom (Chr CHR ''/''), Plus NotSpace] #
           [Plus Space, Atom (Chr CHR ''H''), Atom (Chr CHR ''T''), Atom (Chr CHR ''T''),
            Atom (Chr CHR ''P'')]) m3 cap)"
    unfolding requestLineRegex_def seq_parses_Chr by auto
  show ?thesis
  proof
    assume "seq_parses requestLineRegex m cap"
    then obtain m3 where m3: "m = ''GET'' @ m3"
        "seq_parses (Plus Space # Group [Atom (Chr CHR ''/''), Plus NotSpace] #
           [Plus Space, Atom (Chr CHR ''H''), Atom (Chr CHR ''T''), Atom (Chr CHR ''T''),
            Atom (Chr CHR ''P'')]) m3 cap"
      unfolding head by blast
    from m3(2) obtain ws1 m4 where ws1: "m3 = ws1 @ m4" "ws1 \<noteq> []" "list_all isspace ws1"
        "seq_parses (Group [Atom (Chr CHR ''/''), Plus NotSpace] #
           [Plus Space, Atom (Chr CHR ''H''), Atom (Chr CHR ''T''), Atom (Chr CHR ''T''),
            Atom (Chr CHR ''P'')]) m4 cap"
      unfolding seq_parses_Plus [of Space] sp by blast
    from ws1(4) obtain q ws2 where q: "m4 = (CHR ''/'' # q) @ ws2 @ ''HTTP''" "q \<noteq> []"
        "list_all (\<lambda>x. \<not> isspace x) q" "ws2 \<noteq> []" "list_all isspace ws2"
        "cap = Some (CHR ''/'' # q)"
      unfolding path_then_tail_parses by blast
    have "m = ''GET'' @ ws1 @ (CHR ''/'' # q) @ ws2 @ ''HTTP''"
      using m3(1) ws1(1) q(1) by simp
    then show "\<exists>ws1 q ws2. m = ''GET'' @ ws1 @ (CHR ''/'' # q) @ ws2 @ ''HTTP''
        \<and> ws1 \<noteq> [] \<and> list_all isspace ws1
        \<and> q \<noteq> [] \<and> list_all (\<lambda>x. \<not> isspace x) q
        \<and> ws2 \<noteq> [] \<and> list_all isspace ws2
        \<and> cap = Some (CHR ''/'' # q)"
      using ws1(2,3) q(2-6) by blast
  next
    assume "\<exists>ws1 q ws2. m = ''GET'' @ ws1 @ (CHR ''/'' # q) @ ws2 @ ''HTTP''
        \<and> ws1 \<noteq> [] \<and> list_all isspace ws1
        \<and> q \<noteq> [] \<and> list_all (\<lambda>x. \<not> isspace x) q
        \<and> ws2 \<noteq> [] \<and> list_all isspace ws2
        \<and> cap = Some (CHR ''/'' # q)"
    then obtain ws1 q ws2 where a: "m = ''GET'' @ ws1 @ (CHR ''/'' # q) @ ws2 @ ''HTTP''"
        "ws1 \<noteq> []" "list_all isspace ws1" "q \<noteq> []" "list_all (\<lambda>x. \<not> isspace x) q"
        "ws2 \<noteq> []" "list_all isspace ws2" "cap = Some (CHR ''/'' # q)"
      by blast
    have "seq_parses (Group [Atom (Chr CHR ''/''), Plus NotSpace] #
           [Plus Space, Atom (Chr CHR ''H''), Atom (Chr CHR ''T''), Atom (Chr CHR ''T''),
            Atom (Chr CHR ''P'')]) ((CHR ''/'' # q) @ ws2 @ ''HTTP'') cap"
      unfolding path_then_tail_parses using a(4-8) by blast
    then have "seq_parses (Plus Space # Group [Atom (Chr CHR ''/''), Plus NotSpace] #
           [Plus Space, Atom (Chr CHR ''H''), Atom (Chr CHR ''T''), Atom (Chr CHR ''T''),
            Atom (Chr CHR ''P'')]) (ws1 @ (CHR ''/'' # q) @ ws2 @ ''HTTP'') cap"
      unfolding seq_parses_Plus [of Space] sp using a(2,3) by blast
    then show "seq_parses requestLineRegex m cap"
      unfolding head using a(1) by blast
  qed
qed


lemma begins_with_request_line_iff:
  "begins_with_request_line s =
     (\<exists>ws1 q ws2 after. s = ''GET'' @ ws1 @ (CHR ''/'' # q) @ ws2 @ ''HTTP'' @ after
        \<and> ws1 \<noteq> [] \<and> list_all isspace ws1
        \<and> q \<noteq> [] \<and> list_all (\<lambda>x. \<not> isspace x) q
        \<and> ws2 \<noteq> [] \<and> list_all isspace ws2)"
proof
  assume "begins_with_request_line s"
  then obtain cap r where "(cap, r) \<in> set (match_seq requestLineRegex s)"
    unfolding begins_with_request_line_def by (cases "match_seq requestLineRegex s") auto
  then obtain m where m: "s = m @ r" "seq_parses requestLineRegex m cap"
    unfolding match_seq_iff by blast
  from m(2) obtain ws1 q ws2 where a: "m = ''GET'' @ ws1 @ (CHR ''/'' # q) @ ws2 @ ''HTTP''"
      "ws1 \<noteq> []" "list_all isspace ws1" "q \<noteq> []" "list_all (\<lambda>x. \<not> isspace x) q"
      "ws2 \<noteq> []" "list_all isspace ws2"
    unfolding request_line_parses by blast
  have "s = ''GET'' @ ws1 @ (CHR ''/'' # q) @ ws2 @ ''HTTP'' @ r"
    using m(1) a(1) by simp
  then show "\<exists>ws1 q ws2 after. s = ''GET'' @ ws1 @ (CHR ''/'' # q) @ ws2 @ ''HTTP'' @ after
        \<and> ws1 \<noteq> [] \<and> list_all isspace ws1
        \<and> q \<noteq> [] \<and> list_all (\<lambda>x. \<not> isspace x) q
        \<and> ws2 \<noteq> [] \<and> list_all isspace ws2"
    using a(2-7) by blast
next
  assume "\<exists>ws1 q ws2 after. s = ''GET'' @ ws1 @ (CHR ''/'' # q) @ ws2 @ ''HTTP'' @ after
        \<and> ws1 \<noteq> [] \<and> list_all isspace ws1
        \<and> q \<noteq> [] \<and> list_all (\<lambda>x. \<not> isspace x) q
        \<and> ws2 \<noteq> [] \<and> list_all isspace ws2"
  then obtain ws1 q ws2 after where
      a: "s = ''GET'' @ ws1 @ (CHR ''/'' # q) @ ws2 @ ''HTTP'' @ after"
      "ws1 \<noteq> []" "list_all isspace ws1" "q \<noteq> []" "list_all (\<lambda>x. \<not> isspace x) q"
      "ws2 \<noteq> []" "list_all isspace ws2"
    by blast
  have "seq_parses requestLineRegex (''GET'' @ ws1 @ (CHR ''/'' # q) @ ws2 @ ''HTTP'')
      (Some (CHR ''/'' # q))"
    unfolding request_line_parses using a(2-7) by blast
  moreover have "s = (''GET'' @ ws1 @ (CHR ''/'' # q) @ ws2 @ ''HTTP'') @ after"
    using a(1) by simp
  ultimately have "(Some (CHR ''/'' # q), after) \<in> set (match_seq requestLineRegex s)"
    unfolding match_seq_iff by blast
  then show "begins_with_request_line s"
    unfolding begins_with_request_line_def by auto
qed

lemma regex_search_request_line:
  assumes "regex_search requestLineRegex s = Some path"
  shows "\<exists>before ws1 q ws2 after.
           s = before @ ''GET'' @ ws1 @ path @ ws2 @ ''HTTP'' @ after
           \<and> path = CHR ''/'' # q
           \<and> ws1 \<noteq> [] \<and> list_all isspace ws1
           \<and> q \<noteq> [] \<and> list_all (\<lambda>x. \<not> isspace x) q
           \<and> ws2 \<noteq> [] \<and> list_all isspace ws2"
  using assms
proof (induction s)
  case Nil
  then obtain cap r ms where ms: "match_seq requestLineRegex [] = (cap, r) # ms"
    by (cases "match_seq requestLineRegex []")
      (auto simp: regex_search.simps [of _ "[]"])
  then have "(cap, r) \<in> set (match_seq requestLineRegex [])" by simp
  then obtain m where "[] = m @ r" "seq_parses requestLineRegex m cap"
    unfolding match_seq_iff by blast
  then show ?case unfolding request_line_parses by auto
next
  case (Cons c cs)
  show ?case
  proof (cases "match_seq requestLineRegex (c # cs)")
    case Nil
    then have "regex_search requestLineRegex cs = Some path"
      using Cons.prems by (simp add: regex_search.simps [of _ "c # cs"])
    from Cons.IH [OF this] obtain before ws1 q ws2 after where
        a: "cs = before @ ''GET'' @ ws1 @ path @ ws2 @ ''HTTP'' @ after"
        "path = CHR ''/'' # q" "ws1 \<noteq> []" "list_all isspace ws1" "q \<noteq> []"
        "list_all (\<lambda>x. \<not> isspace x) q" "ws2 \<noteq> []" "list_all isspace ws2"
      by blast
    have "c # cs = (c # before) @ ''GET'' @ ws1 @ path @ ws2 @ ''HTTP'' @ after"
      using a(1) by simp
    then show ?thesis using a(2-8) by blast
  next
    case (Cons first others)
    obtain cap r where f: "first = (cap, r)" by (cases first)
    have p: "path = (case cap of Some sub \<Rightarrow> sub | None \<Rightarrow> [])"
      using Cons.prems Cons f by (simp add: regex_search.simps [of _ "c # cs"])
    have "(cap, r) \<in> set (match_seq requestLineRegex (c # cs))"
      using Cons f by simp
    then obtain m where m: "c # cs = m @ r" "seq_parses requestLineRegex m cap"
      unfolding match_seq_iff by blast
    from m(2) obtain ws1 q ws2 where
        a: "m = ''GET'' @ ws1 @ (CHR ''/'' # q) @ ws2 @ ''HTTP''"
        "ws1 \<noteq> []" "list_all isspace ws1" "q \<noteq> []" "list_all (\<lambda>x. \<not> isspace x) q"
        "ws2 \<noteq> []" "list_all isspace ws2" "cap = Some (CHR ''/'' # q)"
      unfolding request_line_parses by blast
    have "path = CHR ''/'' # q" using p a(8) by simp
    moreover have "c # cs = [] @ ''GET'' @ ws1 @ (CHR ''/'' # q) @ ws2 @ ''HTTP'' @ r"
      using m(1) a(1) by simp
    ultimately show ?thesis using a(2-7) by blast
  qed
qed

section \<open>Properties of authenticate\<close>

lemma settlements_parse_request:
  "settlements (parse_request callbackScheme request) = parse_request callbackScheme request"
  using parse_request_single [of callbackScheme request]
  by (auto simp: settlements_def)

lemma settlements_events_until_recv: "settlements (events_until_recv env url) = []"
  by (simp add: settlements_def events_until_recv_def)

lemma settlements_append: "settlements (a @ b) = settlements a @ settlements b"
  by (simp add: settlements_def)

lemma live_sockets_append:
  "live_sockets (a @ b) live =
     (case live_sockets a live of None \<Rightarrow> None | Some live' \<Rightarrow> live_sockets b live')"
  by (induction a live rule: live_sockets.induct) simp_all

lemma live_sockets_events_until_recv:
  assumes "socket_result env \<noteq> INVALID_SOCKET"
  shows "live_sockets (events_until_recv env url) [] =
         Some (if accept_result env = INVALID_SOCKET then [socket_result env]
               else [accept_result env, socket_result env])"
  using assms by (simp add: events_until_recv_def)

text \<open>
  Claim C4. On every path of one \<open>authenticate\<close> attempt the promise is settled exactly once
  (one \<open>Resolve\<close> or one \<open>Reject\<close>), the settling call is the last thing the attempt does, and
  every socket opened before it (by \<open>socket\<close> or by \<open>accept\<close>) has been closed before it: no
  socket is open when the promise is settled, and no socket is closed that is not open. The
  attempt never leaves the receive buffer.
\<close>

theorem authenticate_settles_once_after_closing:
  "length (settlements (authenticate env url callbackScheme)) = 1
   \<and> is_settlement (last (authenticate env url callbackScheme))
   \<and> live_sockets (butlast (authenticate env url callbackScheme)) [] = Some []
   \<and> OutOfBounds \<notin> set (authenticate env url callbackScheme)"
proof -
  consider (startup) "WSAStartup_result env \<noteq> 0"
    | (socket) "WSAStartup_result env = 0" "socket_result env = INVALID_SOCKET"
    | (bind) "WSAStartup_result env = 0" "socket_result env \<noteq> INVALID_SOCKET"
        "bind_result env = SOCKET_ERROR"
    | (listen) "WSAStartup_result env = 0" "socket_result env \<noteq> INVALID_SOCKET"
        "bind_result env \<noteq> SOCKET_ERROR" "listen_result env = SOCKET_ERROR"
    | (accept) "listener_ready env" "accept_result env = INVALID_SOCKET"
    | (silent) "listener_ready env" "accept_result env \<noteq> INVALID_SOCKET"
        "recv_fails env \<or> received_bytes env = []"
    | (read) "connection_read env"
    unfolding connection_read_def listener_ready_def by blast
  then show ?thesis
  proof cases
    case startup
    then show ?thesis by (simp add: authenticate_startup_fails settlements_def)
  next
    case socket
    then show ?thesis by (simp add: authenticate_socket_fails settlements_def)
  next
    case bind
    then show ?thesis by (simp add: authenticate_bind_fails settlements_def)
  next
    case listen
    then show ?thesis by (simp add: authenticate_listen_fails settlements_def)
  next
    case accept
    have s: "socket_result env \<noteq> INVALID_SOCKET"
      using accept(1) by (simp add: listener_ready_def)
    have b: "butlast (authenticate env url callbackScheme)
             = events_until_recv env url @ [Call_closesocket (socket_result env), Call_WSACleanup]"
      by (simp add: authenticate_accept_fails [OF accept] butlast_append)
    have "live_sockets (butlast (authenticate env url callbackScheme)) [] = Some []"
      unfolding b live_sockets_append live_sockets_events_until_recv [OF s]
      using accept(2) by simp
    moreover have "OutOfBounds \<notin> set (authenticate env url callbackScheme)"
      by (simp add: authenticate_accept_fails [OF accept] events_until_recv_def)
    ultimately show ?thesis
      by (simp add: authenticate_accept_fails [OF accept] settlements_append
          settlements_events_until_recv) (simp add: settlements_def)
  next
    case silent
    have s: "socket_result env \<noteq> INVALID_SOCKET"
      using silent(1) by (simp add: listener_ready_def)
    have b: "butlast (authenticate env url callbackScheme)
             = events_until_recv env url @
               [Call_recv (accept_result env) 4095 (if recv_fails env then SOCKET_ERROR else 0),
                Call_closesocket (accept_result env), Call_closesocket (socket_result env),
                Call_WSACleanup]"
      by (simp add: authenticate_recv_nothing [OF silent] butlast_append)
    have "live_sockets (butlast (authenticate env url callbackScheme)) [] = Some []"
      unfolding b live_sockets_append live_sockets_events_until_recv [OF s]
      using silent(2) by simp
    moreover have "OutOfBounds \<notin> set (authenticate env url callbackScheme)"
      by (simp add: authenticate_recv_nothing [OF silent] events_until_recv_def)
    ultimately show ?thesis
      by (simp add: authenticate_recv_nothing [OF silent] settlements_append
          settlements_events_until_recv) (simp add: settlements_def)
  next
    case read
    have s: "socket_result env \<noteq> INVALID_SOCKET" "accept_result env \<noteq> INVALID_SOCKET"
      using read by (simp_all add: connection_read_def listener_ready_def)
    obtain v where v: "parse_request callbackScheme (request_seen env) = [Resolve v]"
      using parse_request_single by blast
    have b: "butlast (authenticate env url callbackScheme)
             = events_until_recv env url @
               [Call_recv (accept_result env) 4095 (int (length (received_bytes env))),
                Call_send (accept_result env) response (send_result env),
                Call_closesocket (accept_result env), Call_closesocket (socket_result env),
                Call_WSACleanup]"
      by (simp add: authenticate_read [OF read] v butlast_append)
    have "live_sockets (butlast (authenticate env url callbackScheme)) [] = Some []"
      unfolding b live_sockets_append live_sockets_events_until_recv [OF s(1)]
      using s(2) by simp
    moreover have "OutOfBounds \<notin> set (authenticate env url callbackScheme)"
      by (simp add: authenticate_read [OF read] v events_until_recv_def)
    ultimately show ?thesis
      by (simp add: authenticate_read [OF read] v settlements_append
          settlements_events_until_recv) (simp add: settlements_def)
  qed
qed

theorem authenticate_settles_once_after_closing_witness:
  "length (settlements (authenticate (example_platform example_request)
      ''https://auth.example/authorize'' ''myapp'')) = 1
   \<and> live_sockets (butlast (authenticate (example_platform example_request)
      ''https://auth.example/authorize'' ''myapp'')) [] = Some []"
  using authenticate_settles_once_after_closing [of "example_platform example_request"
      "''https://auth.example/authorize''" "''myapp''"]
  by simp

lemma substr_find_char:
  "find_char s c = Some pos \<Longrightarrow> substr s pos = dropWhile (\<lambda>x. x \<noteq> c) s"
  by (auto simp: find_char_def substr_def dropWhile_eq_drop split: if_splits)

lemma find_char_None: "(find_char s c = None) = (c \<notin> set s)"
  by (simp add: find_char_def)

lemma parse_request_match:
  assumes "regex_search requestLineRegex request = Some path"
  shows "parse_request callbackScheme request =
         [if CHR ''?'' \<in> set path
          then Resolve (JSString (callbackScheme @ ''://callback''
                 @ dropWhile (\<lambda>c. c \<noteq> CHR ''?'') path))
          else Resolve JSNull]"
proof (cases "find_char path (CHR ''?'')")
  case None
  then show ?thesis
    using assms find_char_None [of path "CHR ''?''"] by (simp add: parse_request_def)
next
  case (Some qPos)
  then have "CHR ''?'' \<in> set path"
    using find_char_None [of path "CHR ''?''"] by simp
  then show ?thesis
    using assms Some substr_find_char [OF Some] by (simp add: parse_request_def Let_def)
qed

lemma parse_request_no_match:
  assumes "regex_search requestLineRegex request = None"
  shows "parse_request callbackScheme request = [Resolve JSNull]"
  using assms by (simp add: parse_request_def)

lemma settlements_Cons:
  "settlements (e # t) = (if is_settlement e then e # settlements t else settlements t)"
  by (simp add: settlements_def)

lemma settlements_authenticate_read:
  assumes "connection_read env"
  shows "settlements (authenticate env url callbackScheme)
         = parse_request callbackScheme (request_seen env)"
  by (simp add: authenticate_read [OF assms] settlements_append settlements_Cons
      settlements_events_until_recv settlements_parse_request)

lemma example_platform_read:
  assumes "bytes \<noteq> []" "length bytes \<le> 4095" "NUL \<notin> set bytes"
  shows "connection_read (example_platform bytes)"
    and "received_bytes (example_platform bytes) = bytes"
    and "request_seen (example_platform bytes) = bytes"
proof -
  show r: "received_bytes (example_platform bytes) = bytes"
    using assms(2) by (simp add: received_bytes_def example_platform_def)
  show "connection_read (example_platform bytes)"
    unfolding connection_read_def r using assms(1)
    by (simp add: listener_ready_def example_platform_def SOCKET_ERROR_def)
  show "request_seen (example_platform bytes) = bytes"
    unfolding request_seen_def r using assms(3) by (auto simp: takeWhile_eq_all_conv)
qed

lemma request_seen_no_NUL:
  "NUL \<notin> set (received_bytes env) \<Longrightarrow> request_seen env = received_bytes env"
  by (auto simp: request_seen_def takeWhile_eq_all_conv)

text \<open>
  Claim C1, as amended. When a connection is accepted and bytes are read, and the
  request-line pattern matches in the received bytes up to their first NUL (the C string
  the program reads back from its buffer; all the received bytes when none is NUL) with
  sub-match \<open>path\<close>, then
  the promise is resolved, and with nothing else: with the string
  \<open>callbackScheme @ "://callback" @\<close> the part of \<open>path\<close> from its first \<open>?\<close> on when \<open>path\<close>
  contains a \<open>?\<close>, and with null when it contains none. The sub-match is the path of a
  request line \<open>GET path HTTP\<close> in those bytes. The witness is the request
  \<open>GET /callback?code=abc123&state=xyz HTTP/1.1\<close> with scheme \<open>myapp\<close>.
\<close>

theorem authenticate_callback_url:
  assumes "connection_read env"
    and "regex_search requestLineRegex (request_seen env) = Some path"
  shows "settlements (authenticate env url callbackScheme) =
           [if CHR ''?'' \<in> set path
            then Resolve (JSString (callbackScheme @ ''://callback''
                   @ dropWhile (\<lambda>c. c \<noteq> CHR ''?'') path))
            else Resolve JSNull]
         \<and> (\<exists>before ws1 q ws2 after.
               request_seen env = before @ ''GET'' @ ws1 @ path @ ws2 @ ''HTTP'' @ after
               \<and> path = CHR ''/'' # q
               \<and> ws1 \<noteq> [] \<and> list_all isspace ws1
               \<and> q \<noteq> [] \<and> list_all (\<lambda>x. \<not> isspace x) q
               \<and> ws2 \<noteq> [] \<and> list_all isspace ws2)
         \<and> (NUL \<notin> set (received_bytes env) \<longrightarrow> request_seen env = received_bytes env)"
  using settlements_authenticate_read [OF assms(1)] parse_request_match [OF assms(2)]
    regex_search_request_line [OF assms(2)] request_seen_no_NUL [of env]
  by simp

theorem authenticate_callback_url_witness:
  "settlements (authenticate (example_platform example_request)
      ''https://auth.example/authorize'' ''myapp'')
   = [Resolve (JSString ''myapp://callback?code=abc123&state=xyz'')]"
proof -
  have ex: "example_request \<noteq> []" "length example_request \<le> 4095"
    "NUL \<notin> set example_request"
    by (simp_all add: example_request_def NUL_def)
  have m: "regex_search requestLineRegex (request_seen (example_platform example_request))
           = Some ''/callback?code=abc123&state=xyz''"
    unfolding example_platform_read(3) [OF ex] by code_simp
  show ?thesis
    using authenticate_callback_url [OF example_platform_read(1) [OF ex] m,
        of "''https://auth.example/authorize''" "''myapp''", THEN conjunct1]
    by simp
qed

text \<open>
  Claim C1 as stated fails: it speaks of every received byte sequence in which the pattern
  matches. In the received bytes NUL, \<open>GET /cb?x=1 HTTP\<close> the pattern matches, with the path
  \<open>/cb?x=1\<close> that contains a \<open>?\<close>; but the program reads its buffer back as a C string,
  which is empty here, and resolves the promise with null.
\<close>

theorem callback_url_after_NUL_counterexample:
  "connection_read (example_platform request_after_NUL)
   \<and> regex_search requestLineRegex (received_bytes (example_platform request_after_NUL))
       = Some ''/cb?x=1''
   \<and> CHR ''?'' \<in> set ''/cb?x=1''
   \<and> settlements (authenticate (example_platform request_after_NUL)
         ''https://auth.example/authorize'' ''myapp'') = [Resolve JSNull]"
proof -
  have rb: "received_bytes (example_platform request_after_NUL) = request_after_NUL"
    by (simp add: received_bytes_def example_platform_def request_after_NUL_def)
  have cr: "connection_read (example_platform request_after_NUL)"
    unfolding connection_read_def rb
    by (simp add: listener_ready_def example_platform_def SOCKET_ERROR_def
        request_after_NUL_def)
  have m: "regex_search requestLineRegex request_after_NUL = Some ''/cb?x=1''"
    by code_simp
  have rs: "request_seen (example_platform request_after_NUL) = []"
    unfolding request_seen_def rb by (simp add: request_after_NUL_def)
  have n: "regex_search requestLineRegex [] = None"
    by code_simp
  have s: "settlements (authenticate (example_platform request_after_NUL)
         ''https://auth.example/authorize'' ''myapp'') = [Resolve JSNull]"
    using settlements_authenticate_read [OF cr] parse_request_no_match [OF n]
    unfolding rs by simp
  show ?thesis
    using cr m s unfolding rb by simp
qed

lemma settlements_Nil: "settlements [] = []"
  by (simp add: settlements_def)

lemmas settlements_simps = settlements_Nil settlements_Cons settlements_append
  settlements_events_until_recv

lemma settlements_setup_failure:
  assumes "\<not> listener_ready env"
  shows "\<exists>message. settlements (authenticate env url callbackScheme)
           = [Reject ''SOCKET_ERROR'' message]"
proof -
  consider (startup) "WSAStartup_result env \<noteq> 0"
    | (socket) "WSAStartup_result env = 0" "socket_result env = INVALID_SOCKET"
    | (bind) "WSAStartup_result env = 0" "socket_result env \<noteq> INVALID_SOCKET"
        "bind_result env = SOCKET_ERROR"
    | (listen) "WSAStartup_result env = 0" "socket_result env \<noteq> INVALID_SOCKET"
        "bind_result env \<noteq> SOCKET_ERROR" "listen_result env = SOCKET_ERROR"
    using assms unfolding listener_ready_def by blast
  then show ?thesis
  proof cases
    case startup
    then show ?thesis by (simp add: authenticate_startup_fails settlements_simps)
  next
    case socket
    then show ?thesis by (simp add: authenticate_socket_fails settlements_simps)
  next
    case bind
    then show ?thesis by (simp add: authenticate_bind_fails settlements_simps)
  next
    case listen
    then show ?thesis by (simp add: authenticate_listen_fails settlements_simps)
  qed
qed

lemma settlements_no_connection:
  assumes "listener_ready env"
    and "accept_result env = INVALID_SOCKET \<or> recv_fails env \<or> received_bytes env = []"
  shows "settlements (authenticate env url callbackScheme) = [Resolve JSNull]"
proof (cases "accept_result env = INVALID_SOCKET")
  case True
  show ?thesis
    by (simp add: authenticate_accept_fails [OF assms(1) True] settlements_simps)
next
  case False
  then have "recv_fails env \<or> received_bytes env = []" using assms(2) by simp
  from authenticate_recv_nothing [OF assms(1) False this]
  show ?thesis
    by (simp add: settlements_simps)
qed

text \<open>
  Claim C2. The promise is rejected exactly when the listener cannot be set up (the socket
  library does not initialise, or the socket cannot be created, bound or made to listen),
  and then with the error code \<open>SOCKET_ERROR\<close>. Once the listener is ready the promise is
  resolved, never rejected; and it is resolved with null when \<open>accept\<close> returns no
  connection (a timeout or an error), when the read returns no byte or fails, when the
  pattern does not match, and when the matched path has no \<open>?\<close>.
\<close>

theorem authenticate_rejects_only_setup_failures:
  "(\<not> listener_ready env \<longrightarrow>
      (\<exists>message. settlements (authenticate env url callbackScheme)
         = [Reject ''SOCKET_ERROR'' message]))
   \<and> (listener_ready env \<longrightarrow>
      (\<exists>v. settlements (authenticate env url callbackScheme) = [Resolve v]))
   \<and> (listener_ready env
        \<and> (accept_result env = INVALID_SOCKET \<or> recv_fails env \<or> received_bytes env = []
           \<or> regex_search requestLineRegex (request_seen env) = None
           \<or> (\<exists>path. regex_search requestLineRegex (request_seen env) = Some path
                 \<and> CHR ''?'' \<notin> set path)) \<longrightarrow>
      settlements (authenticate env url callbackScheme) = [Resolve JSNull])"
proof (intro conjI impI)
  assume "\<not> listener_ready env"
  then show "\<exists>message. settlements (authenticate env url callbackScheme)
      = [Reject ''SOCKET_ERROR'' message]"
    by (rule settlements_setup_failure)
next
  assume ready: "listener_ready env"
  show "\<exists>v. settlements (authenticate env url callbackScheme) = [Resolve v]"
  proof (cases "connection_read env")
    case True
    then show ?thesis
      using settlements_authenticate_read [OF True] parse_request_single by simp
  next
    case False
    then have "accept_result env = INVALID_SOCKET \<or> recv_fails env \<or> received_bytes env = []"
      using ready by (simp add: connection_read_def)
    from settlements_no_connection [OF ready this] show ?thesis by simp
  qed
next
  assume a: "listener_ready env
        \<and> (accept_result env = INVALID_SOCKET \<or> recv_fails env \<or> received_bytes env = []
           \<or> regex_search requestLineRegex (request_seen env) = None
           \<or> (\<exists>path. regex_search requestLineRegex (request_seen env) = Some path
                 \<and> CHR ''?'' \<notin> set path))"
  then have ready: "listener_ready env" by simp
  show "settlements (authenticate env url callbackScheme) = [Resolve JSNull]"
  proof (cases "connection_read env")
    case False
    then have "accept_result env = INVALID_SOCKET \<or> recv_fails env \<or> received_bytes env = []"
      using ready by (simp add: connection_read_def)
    from settlements_no_connection [OF ready this] show ?thesis .
  next
    case True
    then have "regex_search requestLineRegex (request_seen env) = None
           \<or> (\<exists>path. regex_search requestLineRegex (request_seen env) = Some path
                 \<and> CHR ''?'' \<notin> set path)"
      using a by (simp add: connection_read_def)
    then show ?thesis
    proof
      assume "regex_search requestLineRegex (request_seen env) = None"
      then show ?thesis
        using settlements_authenticate_read [OF True] parse_request_no_match by simp
    next
      assume "\<exists>path. regex_search requestLineRegex (request_seen env) = Some path
                 \<and> CHR ''?'' \<notin> set path"
      then obtain path where "regex_search requestLineRegex (request_seen env) = Some path"
        "CHR ''?'' \<notin> set path" by blast
      then show ?thesis
        using settlements_authenticate_read [OF True] parse_request_match by simp
    qed
  qed
qed

theorem authenticate_rejects_only_setup_failures_witness:
  "settlements (authenticate ((example_platform example_request)\<lparr>bind_result := SOCKET_ERROR\<rparr>)
      ''https://auth.example/authorize'' ''myapp'')
     = [Reject ''SOCKET_ERROR'' ''Failed to bind socket'']
   \<and> settlements (authenticate ((example_platform example_request)\<lparr>accept_result := INVALID_SOCKET\<rparr>)
      ''https://auth.example/authorize'' ''myapp'') = [Resolve JSNull]"
proof -
  let ?bad = "(example_platform example_request)\<lparr>bind_result := SOCKET_ERROR\<rparr>"
  let ?timeout = "(example_platform example_request)\<lparr>accept_result := INVALID_SOCKET\<rparr>"
  have nr: "\<not> listener_ready ?bad"
    by (simp add: listener_ready_def example_platform_def)
  have "WSAStartup_result ?bad = 0" "socket_result ?bad \<noteq> INVALID_SOCKET"
    "bind_result ?bad = SOCKET_ERROR"
    by (simp_all add: example_platform_def)
  then have 1: "settlements (authenticate ?bad ''https://auth.example/authorize'' ''myapp'')
     = [Reject ''SOCKET_ERROR'' ''Failed to bind socket'']"
    using authenticate_rejects_only_setup_failures
        [of ?bad "''https://auth.example/authorize''" "''myapp''"] nr
    by (simp add: authenticate_bind_fails settlements_simps)
  have r: "listener_ready ?timeout" "accept_result ?timeout = INVALID_SOCKET"
    by (simp_all add: listener_ready_def example_platform_def SOCKET_ERROR_def)
  have 2: "settlements (authenticate ?timeout ''https://auth.example/authorize'' ''myapp'')
      = [Resolve JSNull]"
    using authenticate_rejects_only_setup_failures
        [of ?timeout "''https://auth.example/authorize''" "''myapp''"] r
    by simp
  show ?thesis using 1 2 by simp
qed

lemma recv_lengths_append: "recv_lengths (a @ b) = recv_lengths a @ recv_lengths b"
  by (induction a rule: recv_lengths.induct) simp_all

lemma recv_lengths_parse_request: "recv_lengths (parse_request callbackScheme request) = []"
  using parse_request_single [of callbackScheme request] by auto

lemma recv_lengths_events_until_recv: "recv_lengths (events_until_recv env url) = []"
  by (simp add: events_until_recv_def)

lemma recv_lengths_authenticate:
  "recv_lengths (authenticate env url callbackScheme) =
     (if listener_ready env \<and> accept_result env \<noteq> INVALID_SOCKET then [4095] else [])"
proof -
  consider (startup) "WSAStartup_result env \<noteq> 0"
    | (socket) "WSAStartup_result env = 0" "socket_result env = INVALID_SOCKET"
    | (bind) "WSAStartup_result env = 0" "socket_result env \<noteq> INVALID_SOCKET"
        "bind_result env = SOCKET_ERROR"
    | (listen) "WSAStartup_result env = 0" "socket_result env \<noteq> INVALID_SOCKET"
        "bind_result env \<noteq> SOCKET_ERROR" "listen_result env = SOCKET_ERROR"
    | (accept) "listener_ready env" "accept_result env = INVALID_SOCKET"
    | (silent) "listener_ready env" "accept_result env \<noteq> INVALID_SOCKET"
        "recv_fails env \<or> received_bytes env = []"
    | (read) "connection_read env"
    unfolding connection_read_def listener_ready_def by blast
  then show ?thesis
  proof cases
    case startup
    then show ?thesis by (simp add: authenticate_startup_fails listener_ready_def)
  next
    case socket
    then show ?thesis by (simp add: authenticate_socket_fails listener_ready_def)
  next
    case bind
    then show ?thesis by (simp add: authenticate_bind_fails listener_ready_def)
  next
    case listen
    then show ?thesis by (simp add: authenticate_listen_fails listener_ready_def)
  next
    case accept
    then show ?thesis
      by (simp add: authenticate_accept_fails recv_lengths_append recv_lengths_events_until_recv)
  next
    case silent
    then show ?thesis
      by (simp add: authenticate_recv_nothing recv_lengths_append
          recv_lengths_events_until_recv)
  next
    case read
    then have "listener_ready env" "accept_result env \<noteq> INVALID_SOCKET"
      by (simp_all add: connection_read_def)
    then show ?thesis
      by (simp add: authenticate_read [OF read] recv_lengths_append
          recv_lengths_events_until_recv recv_lengths_parse_request)
  qed
qed

lemma recv_positive:
  assumes "0 < fst (recv env buf 4095)"
  shows "\<not> recv_fails env" "received_bytes env \<noteq> []"
  using assms by (auto simp: recv_def received_bytes_def Let_def SOCKET_ERROR_def
      split: if_splits)

text \<open>
  Claim C10. An attempt reads at most once, and the read asks for 4095 bytes, one less than
  the 4096 bytes of the buffer. So a read that returns a positive count returns at most
  4095, the NUL written at index \<open>bytesRead\<close> is inside the buffer, and the C string read
  back from the buffer ends inside it: the attempt never leaves the buffer. What the peer
  sent beyond 4095 bytes is cut off, and the request-line pattern is applied to the
  received bytes up to their first NUL only.
\<close>

theorem receive_buffer_bounds:
  "recv_lengths (authenticate env url callbackScheme) =
     (if listener_ready env \<and> accept_result env \<noteq> INVALID_SOCKET then [4095] else [])
   \<and> OutOfBounds \<notin> set (authenticate env url callbackScheme)
   \<and> (length buf = 4096 \<and> 0 < fst (recv env buf 4095) \<longrightarrow>
        fst (recv env buf 4095) \<le> 4095
        \<and> (\<exists>terminated.
              store (snd (recv env buf 4095)) (fst (recv env buf 4095)) NUL = Some terminated
              \<and> c_str terminated
                  = Some (takeWhile (\<lambda>c. c \<noteq> NUL) (take 4095 (peer_bytes env)))))
   \<and> (connection_read env \<longrightarrow>
        settlements (authenticate env url callbackScheme)
        = parse_request callbackScheme
            (takeWhile (\<lambda>c. c \<noteq> NUL) (take 4095 (peer_bytes env))))"
proof (intro conjI impI)
  show "recv_lengths (authenticate env url callbackScheme) =
     (if listener_ready env \<and> accept_result env \<noteq> INVALID_SOCKET then [4095] else [])"
    by (rule recv_lengths_authenticate)
next
  show "OutOfBounds \<notin> set (authenticate env url callbackScheme)"
  proof -
    consider (startup) "WSAStartup_result env \<noteq> 0"
      | (socket) "WSAStartup_result env = 0" "socket_result env = INVALID_SOCKET"
      | (bind) "WSAStartup_result env = 0" "socket_result env \<noteq> INVALID_SOCKET"
          "bind_result env = SOCKET_ERROR"
      | (listen) "WSAStartup_result env = 0" "socket_result env \<noteq> INVALID_SOCKET"
          "bind_result env \<noteq> SOCKET_ERROR" "listen_result env = SOCKET_ERROR"
      | (accept) "listener_ready env" "accept_result env = INVALID_SOCKET"
      | (silent) "listener_ready env" "accept_result env \<noteq> INVALID_SOCKET"
          "recv_fails env \<or> received_bytes env = []"
      | (read) "connection_read env"
      unfolding connection_read_def listener_ready_def by blast
    then show ?thesis
    proof cases
      case startup
      then show ?thesis by (simp add: authenticate_startup_fails)
    next
      case socket
      then show ?thesis by (simp add: authenticate_socket_fails)
    next
      case bind
      then show ?thesis by (simp add: authenticate_bind_fails)
    next
      case listen
      then show ?thesis by (simp add: authenticate_listen_fails)
    next
      case accept
      then show ?thesis by (simp add: authenticate_accept_fails events_until_recv_def)
    next
      case silent
      then show ?thesis by (simp add: authenticate_recv_nothing events_until_recv_def)
    next
      case read
      obtain v where "parse_request callbackScheme (request_seen env) = [Resolve v]"
        using parse_request_single by blast
      then show ?thesis by (simp add: authenticate_read [OF read] events_until_recv_def)
    qed
  qed
next
  assume a: "length buf = 4096 \<and> 0 < fst (recv env buf 4095)"
  then have len: "length buf = 4096" and pos: "0 < fst (recv env buf 4095)" by simp_all
  have rv: "recv env buf 4095 = (fst (recv env buf 4095), snd (recv env buf 4095))" by simp
  note rr = read_request [OF recv_positive [OF pos] len rv]
  show "fst (recv env buf 4095) \<le> 4095"
    using rr(2) received_short [of env] by simp
  show "\<exists>terminated.
      store (snd (recv env buf 4095)) (fst (recv env buf 4095)) NUL = Some terminated
      \<and> c_str terminated = Some (takeWhile (\<lambda>c. c \<noteq> NUL) (take 4095 (peer_bytes env)))"
    using rr(3) by (simp add: request_seen_def received_bytes_def)
next
  assume "connection_read env"
  then show "settlements (authenticate env url callbackScheme)
      = parse_request callbackScheme (takeWhile (\<lambda>c. c \<noteq> NUL) (take 4095 (peer_bytes env)))"
    by (simp add: settlements_authenticate_read request_seen_def received_bytes_def)
qed

theorem receive_buffer_bounds_witness:
  "settlements (authenticate (example_platform (''GET /a?b'' @ [NUL] @ ''c HTTP''))
      ''https://auth.example/authorize'' ''myapp'') = [Resolve JSNull]
   \<and> fst (recv (example_platform (''GET /a?b'' @ [NUL] @ ''c HTTP'')) (replicate 4096 NUL) 4095)
      = 15"
proof -
  let ?env = "example_platform (''GET /a?b'' @ [NUL] @ ''c HTTP'')"
  have rb: "received_bytes ?env = ''GET /a?b'' @ [NUL] @ ''c HTTP''"
    by (simp add: received_bytes_def example_platform_def)
  have cr: "connection_read ?env"
    unfolding connection_read_def rb
    by (simp add: listener_ready_def example_platform_def SOCKET_ERROR_def)
  have tw: "takeWhile (\<lambda>c. c \<noteq> NUL) (take 4095 (peer_bytes ?env)) = ''GET /a?b''"
    by (simp add: example_platform_def NUL_def)
  have m: "regex_search requestLineRegex ''GET /a?b'' = None"
    by code_simp
  have pr: "parse_request ''myapp'' ''GET /a?b'' = [Resolve JSNull]"
    using parse_request_no_match [OF m] .
  have n: "fst (recv ?env (replicate 4096 NUL) 4095) = 15"
    by (simp add: recv_def example_platform_def)
  have "length (replicate 4096 NUL) = 4096 \<and> 0 < fst (recv ?env (replicate 4096 NUL) 4095)"
    using n by simp
  then show ?thesis
    using receive_buffer_bounds [of ?env "''https://auth.example/authorize''" "''myapp''"
        "replicate 4096 NUL"] cr n
    unfolding tw pr by simp
qed

lemma connection_read_send_result:
  "connection_read (env\<lparr>send_result := r\<rparr>) = connection_read env"
  "request_seen (env\<lparr>send_result := r\<rparr>) = request_seen env"
  by (simp_all add: connection_read_def listener_ready_def received_bytes_def request_seen_def)

text \<open>
  Claim C9. Once the read has returned bytes, the attempt sends the fixed \<open>HTTP/1.1 200 OK\<close>
  response on the accepted connection and closes both sockets, and only then parses the
  request and settles the promise: everything before the parsing step is the same whatever
  the request is (match, no match, no query), no socket is open when parsing starts, and
  the settlement does not depend on the value \<open>send\<close> returns.
\<close>

theorem response_sent_before_parsing:
  "(connection_read env \<longrightarrow>
      (\<exists>before.
          authenticate env url callbackScheme =
            before @
            [Call_send (accept_result env) response (send_result env),
             Call_closesocket (accept_result env), Call_closesocket (socket_result env),
             Call_WSACleanup] @
            parse_request callbackScheme (request_seen env)
          \<and> settlements before = []
          \<and> live_sockets
               (before @
                [Call_send (accept_result env) response (send_result env),
                 Call_closesocket (accept_result env), Call_closesocket (socket_result env)])
               [] = Some [])
      \<and> settlements (authenticate (env\<lparr>send_result := r\<rparr>) url callbackScheme)
          = settlements (authenticate env url callbackScheme))
   \<and> take 15 response = ''HTTP/1.1 200 OK''"
proof (intro conjI impI)
  assume read: "connection_read env"
  let ?before = "events_until_recv env url @
      [Call_recv (accept_result env) 4095 (int (length (received_bytes env)))]"
  have s: "socket_result env \<noteq> INVALID_SOCKET" "accept_result env \<noteq> INVALID_SOCKET"
    using read by (simp_all add: connection_read_def listener_ready_def)
  have 1: "authenticate env url callbackScheme =
            ?before @
            [Call_send (accept_result env) response (send_result env),
             Call_closesocket (accept_result env), Call_closesocket (socket_result env),
             Call_WSACleanup] @
            parse_request callbackScheme (request_seen env)"
    by (simp add: authenticate_read [OF read])
  have 2: "settlements ?before = []"
    by (simp add: settlements_simps)
  have 3: "live_sockets
               (?before @
                [Call_send (accept_result env) response (send_result env),
                 Call_closesocket (accept_result env), Call_closesocket (socket_result env)])
               [] = Some []"
    unfolding append_assoc live_sockets_append live_sockets_events_until_recv [OF s(1)]
    using s(2) by simp
  show "\<exists>before.
          authenticate env url callbackScheme =
            before @
            [Call_send (accept_result env) response (send_result env),
             Call_closesocket (accept_result env), Call_closesocket (socket_result env),
             Call_WSACleanup] @
            parse_request callbackScheme (request_seen env)
          \<and> settlements before = []
          \<and> live_sockets
               (before @
                [Call_send (accept_result env) response (send_result env),
                 Call_closesocket (accept_result env), Call_closesocket (socket_result env)])
               [] = Some []"
    using 1 2 3 by blast
  have "connection_read (env\<lparr>send_result := r\<rparr>)"
    using read by (simp add: connection_read_send_result)
  from settlements_authenticate_read [OF this] settlements_authenticate_read [OF read]
  show "settlements (authenticate (env\<lparr>send_result := r\<rparr>) url callbackScheme)
          = settlements (authenticate env url callbackScheme)"
    by (simp add: connection_read_send_result)
next
  show "take 15 response = ''HTTP/1.1 200 OK''"
    by (simp add: response_def)
qed

theorem response_sent_before_parsing_witness:
  "settlements (authenticate ((example_platform example_request)\<lparr>send_result := SOCKET_ERROR\<rparr>)
      ''https://auth.example/authorize'' ''myapp'')
   = settlements (authenticate (example_platform example_request)
      ''https://auth.example/authorize'' ''myapp'')"
proof -
  have ex: "example_request \<noteq> []" "length example_request \<le> 4095"
    "NUL \<notin> set example_request"
    by (simp_all add: example_request_def NUL_def)
  show ?thesis
    using response_sent_before_parsing [of "example_platform example_request"
        "''https://auth.example/authorize''" "''myapp''" SOCKET_ERROR]
      example_platform_read(1) [OF ex]
    by simp
qed

lemma contains_request_line_positions:
  "contains_request_line s = (\<exists>i\<le>length s. begins_with_request_line (drop i s))"
proof (induction s)
  case Nil
  show ?case by simp
next
  case (Cons c cs)
  have "(\<exists>i\<le>length (c # cs). begins_with_request_line (drop i (c # cs)))
        = (begins_with_request_line (c # cs)
           \<or> (\<exists>i\<le>length cs. begins_with_request_line (drop i cs)))"
  proof
    assume "\<exists>i\<le>length (c # cs). begins_with_request_line (drop i (c # cs))"
    then obtain i where i: "i \<le> length (c # cs)" "begins_with_request_line (drop i (c # cs))"
      by blast
    show "begins_with_request_line (c # cs)
           \<or> (\<exists>i\<le>length cs. begins_with_request_line (drop i cs))"
    proof (cases i)
      case 0
      then show ?thesis using i by simp
    next
      case (Suc j)
      then have "j \<le> length cs" "begins_with_request_line (drop j cs)" using i by simp_all
      then show ?thesis by blast
    qed
  next
    assume "begins_with_request_line (c # cs)
           \<or> (\<exists>i\<le>length cs. begins_with_request_line (drop i cs))"
    then show "\<exists>i\<le>length (c # cs). begins_with_request_line (drop i (c # cs))"
    proof
      assume "begins_with_request_line (c # cs)"
      then have "0 \<le> length (c # cs) \<and> begins_with_request_line (drop 0 (c # cs))" by simp
      then show ?thesis by blast
    next
      assume "\<exists>i\<le>length cs. begins_with_request_line (drop i cs)"
      then obtain i where "i \<le> length cs" "begins_with_request_line (drop i cs)" by blast
      then have "Suc i \<le> length (c # cs) \<and> begins_with_request_line (drop (Suc i) (c # cs))"
        by simp
      then show ?thesis by blast
    qed
  qed
  then show ?case using Cons.IH by simp
qed

lemma regex_search_None:
  "(regex_search requestLineRegex s = None) = (\<not> contains_request_line s)"
proof (induction s)
  case Nil
  show ?case
    by (simp add: regex_search.simps [of _ "[]"] begins_with_request_line_def
        split: list.splits)
next
  case (Cons c cs)
  show ?case
    using Cons.IH
    by (simp add: regex_search.simps [of _ "c # cs"] begins_with_request_line_def
        split: list.splits)
qed

text \<open>
  Claim C3, as amended. The pattern is searched at every position of the received bytes (up
  to their first NUL), from left to right, and not only at their start. When the pattern
  matches at no position the promise is resolved with null; when it matches at some
  position, the search succeeds and its sub-match decides the result as in claim C1.
\<close>

theorem request_line_searched_everywhere:
  "(contains_request_line (request_seen env)
      = (\<exists>i\<le>length (request_seen env). begins_with_request_line (drop i (request_seen env))))
   \<and> (connection_read env \<and> \<not> contains_request_line (request_seen env) \<longrightarrow>
        settlements (authenticate env url callbackScheme) = [Resolve JSNull])
   \<and> (connection_read env \<and> contains_request_line (request_seen env) \<longrightarrow>
        (\<exists>path. regex_search requestLineRegex (request_seen env) = Some path
           \<and> settlements (authenticate env url callbackScheme)
               = [if CHR ''?'' \<in> set path
                  then Resolve (JSString (callbackScheme @ ''://callback''
                         @ dropWhile (\<lambda>c. c \<noteq> CHR ''?'') path))
                  else Resolve JSNull]))"
proof (intro conjI impI)
  show "contains_request_line (request_seen env)
      = (\<exists>i\<le>length (request_seen env). begins_with_request_line (drop i (request_seen env)))"
    by (rule contains_request_line_positions)
next
  assume a: "connection_read env \<and> \<not> contains_request_line (request_seen env)"
  then have "regex_search requestLineRegex (request_seen env) = None"
    by (simp add: regex_search_None)
  then show "settlements (authenticate env url callbackScheme) = [Resolve JSNull]"
    using a settlements_authenticate_read parse_request_no_match by simp
next
  assume a: "connection_read env \<and> contains_request_line (request_seen env)"
  then have "regex_search requestLineRegex (request_seen env) \<noteq> None"
    by (simp add: regex_search_None)
  then obtain path where p: "regex_search requestLineRegex (request_seen env) = Some path"
    by blast
  then have "settlements (authenticate env url callbackScheme)
               = [if CHR ''?'' \<in> set path
                  then Resolve (JSString (callbackScheme @ ''://callback''
                         @ dropWhile (\<lambda>c. c \<noteq> CHR ''?'') path))
                  else Resolve JSNull]"
    using a settlements_authenticate_read parse_request_match [OF p] by simp
  then show "\<exists>path. regex_search requestLineRegex (request_seen env) = Some path
           \<and> settlements (authenticate env url callbackScheme)
               = [if CHR ''?'' \<in> set path
                  then Resolve (JSString (callbackScheme @ ''://callback''
                         @ dropWhile (\<lambda>c. c \<noteq> CHR ''?'') path))
                  else Resolve JSNull]"
    using p by blast
qed

lemma later_request_line_read:
  "connection_read (example_platform later_request_line)"
  "request_seen (example_platform later_request_line) = later_request_line"
  "received_bytes (example_platform later_request_line) = later_request_line"
proof -
  have ex: "later_request_line \<noteq> []" "length later_request_line \<le> 4095"
    "NUL \<notin> set later_request_line"
    by (simp_all add: later_request_line_def NUL_def)
  show "connection_read (example_platform later_request_line)"
    "request_seen (example_platform later_request_line) = later_request_line"
    "received_bytes (example_platform later_request_line) = later_request_line"
    using example_platform_read [OF ex] by simp_all
qed

text \<open>
  Claim C3 as stated fails: it says that bytes that do not begin with a \<open>GET\<close> request line
  resolve with null. The bytes \<open>POST /token HTTP/1.1 GET /callback?code=1 HTTP/1.1\<close> do not
  begin with one, yet the promise is resolved with the callback URL of the request line
  found further on.
\<close>

theorem request_line_anchored_counterexample:
  "connection_read (example_platform later_request_line)
   \<and> \<not> begins_with_request_line (received_bytes (example_platform later_request_line))
   \<and> settlements (authenticate (example_platform later_request_line)
        ''https://auth.example/authorize'' ''myapp'')
      = [Resolve (JSString ''myapp://callback?code=1'')]"
proof -
  have nb: "\<not> begins_with_request_line later_request_line"
    by code_simp
  have m: "regex_search requestLineRegex (request_seen (example_platform later_request_line))
           = Some ''/callback?code=1''"
    unfolding later_request_line_read(2) by code_simp
  have "settlements (authenticate (example_platform later_request_line)
        ''https://auth.example/authorize'' ''myapp'')
      = [Resolve (JSString ''myapp://callback?code=1'')]"
    using settlements_authenticate_read [OF later_request_line_read(1)]
      parse_request_match [OF m]
    by simp
  then show ?thesis
    using nb later_request_line_read(1,3) by simp
qed

theorem request_line_searched_everywhere_witness:
  "contains_request_line (request_seen (example_platform later_request_line))
   \<and> settlements (authenticate (example_platform later_request_line)
        ''https://auth.example/authorize'' ''myapp'')
      = [Resolve (JSString ''myapp://callback?code=1'')]
   \<and> settlements (authenticate (example_platform ''POST /token HTTP/1.1'')
        ''https://auth.example/authorize'' ''myapp'') = [Resolve JSNull]"
proof -
  have c: "contains_request_line (request_seen (example_platform later_request_line))"
    unfolding later_request_line_read(2) by code_simp
  have m: "regex_search requestLineRegex (request_seen (example_platform later_request_line))
           = Some ''/callback?code=1''"
    unfolding later_request_line_read(2) by code_simp
  have 1: "settlements (authenticate (example_platform later_request_line)
        ''https://auth.example/authorize'' ''myapp'')
      = [Resolve (JSString ''myapp://callback?code=1'')]"
    using request_line_searched_everywhere [of "example_platform later_request_line"
        "''https://auth.example/authorize''" "''myapp''"]
      c later_request_line_read(1) m
    by auto
  have ex: "''POST /token HTTP/1.1'' \<noteq> []" "length ''POST /token HTTP/1.1'' \<le> 4095"
    "NUL \<notin> set ''POST /token HTTP/1.1''"
    by (simp_all add: NUL_def)
  have n: "\<not> contains_request_line (request_seen (example_platform ''POST /token HTTP/1.1''))"
    unfolding example_platform_read(3) [OF ex] by code_simp
  have 2: "settlements (authenticate (example_platform ''POST /token HTTP/1.1'')
        ''https://auth.example/authorize'' ''myapp'') = [Resolve JSNull]"
    using request_line_searched_everywhere [of "example_platform ''POST /token HTTP/1.1''"
        "''https://auth.example/authorize''" "''myapp''"]
      n example_platform_read(1) [OF ex]
    by simp
  show ?thesis using c 1 2 by simp
qed

section \<open>Properties of generateCodeVerifier and sha256\<close>









section \<open>The URL handed to the browser\<close>

lemma digit_table: "list_all (\<lambda>d. (of_char (digit_char d) :: nat) = 48 + d) [0..<10]"
  by code_simp

lemma digit_char_code: "d < 10 \<Longrightarrow> (of_char (digit_char d) :: nat) = 48 + d"
  using digit_table by (simp add: list_all_iff)

lemma decimal_digits: "\<forall>c\<in>set (decimal n). 48 \<le> (of_char c :: nat) \<and> (of_char c :: nat) \<le> 57"
proof (induction n rule: decimal.induct)
  case (1 n)
  show ?case
  proof (cases "n < 10")
    case True
    then show ?thesis by (simp add: decimal.simps [of n] digit_char_code)
  next
    case False
    have "n mod 10 < 10" by simp
    then have "(of_char (digit_char (n mod 10)) :: nat) = 48 + n mod 10"
      by (rule digit_char_code)
    then show ?thesis
      using False "1.IH" by (simp add: decimal.simps [of n])
  qed
qed

lemma decimal_value:
  "foldl (\<lambda>a c. 10 * a + (of_char c - 48)) 0 (decimal n) = n"
proof (induction n rule: decimal.induct)
  case (1 n)
  show ?case
  proof (cases "n < 10")
    case True
    then show ?thesis by (simp add: decimal.simps [of n] digit_char_code)
  next
    case False
    have "n mod 10 < 10" by simp
    then have "(of_char (digit_char (n mod 10)) :: nat) = 48 + n mod 10"
      by (rule digit_char_code)
    then show ?thesis
      using False "1.IH" by (simp add: decimal.simps [of n])
  qed
qed

lemma to_string_port: "to_string (uint (p :: 16 word)) = decimal (unat p)"
  by (simp add: to_string_def)

lemma widen_table:
  "list_all (\<lambda>n. widen (char_of n) = word_of_nat n) [0..<128]"
  by code_simp

lemma widen_ascii:
  assumes "(of_char c :: nat) < 128"
  shows "widen c = word_of_nat (of_char c)"
proof -
  have all: "\<forall>n\<in>{0..<128}. widen (char_of (n::nat)) = word_of_nat n"
    using widen_table by (simp add: list_all_iff)
  have "(of_char c :: nat) \<in> {0..<128}" using assms by simp
  with all have "widen (char_of (of_char c :: nat)) = word_of_nat (of_char c)"
    by (rule bspec)
  then show ?thesis by simp
qed

lemma widen_nonzero_table:
  "list_all (\<lambda>n. widen (char_of n) \<noteq> 0) [1..<128]"
  by code_simp

lemma widen_ascii_nonzero:
  assumes "0 < (of_char c :: nat)" "(of_char c :: nat) < 128"
  shows "widen c \<noteq> 0"
proof -
  have all: "\<forall>n\<in>{1..<128}. widen (char_of (n::nat)) \<noteq> 0"
    using widen_nonzero_table by (simp add: list_all_iff)
  have "(of_char c :: nat) \<in> {1..<128}" using assms by simp
  with all have "widen (char_of (of_char c :: nat)) \<noteq> 0"
    by (rule bspec)
  then show ?thesis by simp
qed

lemma c_wstr_ascii:
  assumes "\<forall>c\<in>set s. 0 < (of_char c :: nat) \<and> (of_char c :: nat) < 128"
  shows "c_wstr (map widen s) = map (\<lambda>c. word_of_nat (of_char c)) s"
proof -
  have "\<forall>x\<in>set (map widen s). x \<noteq> 0"
    using assms widen_ascii_nonzero by auto
  then have "c_wstr (map widen s) = map widen s"
    by (simp add: c_wstr_def takeWhile_eq_all_conv del: set_map)
  also have "map widen s = map (\<lambda>c. word_of_nat (of_char c)) s"
    using assms widen_ascii by simp
  finally show ?thesis .
qed

lemma fullUrl_appends:
  "fullUrl url port =
     url @ (if CHR ''?'' \<in> set url then ''&'' else ''?'')
     @ ''redirect_uri=http://127.0.0.1:'' @ to_string port @ ''/callback''"
  by (simp add: fullUrl_def redirectUri_def find_char_None)

lemma opened_urls_append: "opened_urls (a @ b) = opened_urls a @ opened_urls b"
  by (induction a rule: opened_urls.induct) simp_all

lemma opened_urls_parse_request: "opened_urls (parse_request callbackScheme request) = []"
  using parse_request_single [of callbackScheme request] by auto

lemma opened_urls_events_until_recv:
  "opened_urls (events_until_recv env url)
   = [c_wstr (map widen (fullUrl url (uint (assigned_port env))))]"
  by (simp add: events_until_recv_def)

lemma opened_urls_authenticate:
  "opened_urls (authenticate env url callbackScheme) =
     (if listener_ready env then [c_wstr (map widen (fullUrl url (uint (assigned_port env))))]
      else [])"
proof -
  consider (startup) "WSAStartup_result env \<noteq> 0"
    | (socket) "WSAStartup_result env = 0" "socket_result env = INVALID_SOCKET"
    | (bind) "WSAStartup_result env = 0" "socket_result env \<noteq> INVALID_SOCKET"
        "bind_result env = SOCKET_ERROR"
    | (listen) "WSAStartup_result env = 0" "socket_result env \<noteq> INVALID_SOCKET"
        "bind_result env \<noteq> SOCKET_ERROR" "listen_result env = SOCKET_ERROR"
    | (accept) "listener_ready env" "accept_result env = INVALID_SOCKET"
    | (silent) "listener_ready env" "accept_result env \<noteq> INVALID_SOCKET"
        "recv_fails env \<or> received_bytes env = []"
    | (read) "connection_read env"
    unfolding connection_read_def listener_ready_def by blast
  then show ?thesis
  proof cases
    case startup
    then show ?thesis by (simp add: authenticate_startup_fails listener_ready_def)
  next
    case socket
    then show ?thesis by (simp add: authenticate_socket_fails listener_ready_def)
  next
    case bind
    then show ?thesis by (simp add: authenticate_bind_fails listener_ready_def)
  next
    case listen
    then show ?thesis by (simp add: authenticate_listen_fails listener_ready_def)
  next
    case accept
    then show ?thesis
      by (simp add: authenticate_accept_fails opened_urls_append opened_urls_events_until_recv)
  next
    case silent
    then show ?thesis
      by (simp add: authenticate_recv_nothing opened_urls_append
          opened_urls_events_until_recv)
  next
    case read
    then have "listener_ready env" by (simp add: connection_read_def)
    then show ?thesis
      by (simp add: authenticate_read [OF read] opened_urls_append
          opened_urls_events_until_recv opened_urls_parse_request)
  qed
qed

lemma redirect_suffix_ascii:
  "\<forall>c\<in>set ((if CHR ''?'' \<in> set url then ''&'' else ''?'')
       @ ''redirect_uri=http://127.0.0.1:'' @ to_string (uint (p :: 16 word)) @ ''/callback'').
     0 < (of_char c :: nat) \<and> (of_char c :: nat) < 128"
  using decimal_digits [of "unat p"] by (auto simp: to_string_port)

text \<open>
  Claim C5. Once the listener is ready, the shell is asked exactly once to open a URL, and
  that URL is the caller's URL followed by \<open>&\<close> when the caller's URL contains a \<open>?\<close> and by
  \<open>?\<close> otherwise, then \<open>redirect_uri=http://127.0.0.1:\<close>, the decimal numeral of the port
  \<open>getsockname\<close> reports for the bound socket, and \<open>/callback\<close>. It is handed over as a
  NUL-terminated wide string converted character by character; for a URL of ASCII
  characters other than NUL these are the same characters, all of them.
\<close>

theorem browser_url_appends_redirect_uri:
  "opened_urls (authenticate env url callbackScheme) =
     (if listener_ready env
      then [c_wstr (map widen
              (url @ (if CHR ''?'' \<in> set url then ''&'' else ''?'')
               @ ''redirect_uri=http://127.0.0.1:'' @ to_string (uint (assigned_port env))
               @ ''/callback''))]
      else [])
   \<and> ((\<forall>c\<in>set url. 0 < (of_char c :: nat) \<and> (of_char c :: nat) < 128) \<longrightarrow>
        c_wstr (map widen
              (url @ (if CHR ''?'' \<in> set url then ''&'' else ''?'')
               @ ''redirect_uri=http://127.0.0.1:'' @ to_string (uint (assigned_port env))
               @ ''/callback''))
        = map (\<lambda>c. word_of_nat (of_char c))
              (url @ (if CHR ''?'' \<in> set url then ''&'' else ''?'')
               @ ''redirect_uri=http://127.0.0.1:'' @ to_string (uint (assigned_port env))
               @ ''/callback''))
   \<and> foldl (\<lambda>a c. 10 * a + (of_char c - 48)) 0 (to_string (uint (assigned_port env)))
       = unat (assigned_port env)
   \<and> (\<forall>c\<in>set (to_string (uint (assigned_port env))).
         48 \<le> (of_char c :: nat) \<and> (of_char c :: nat) \<le> 57)"
proof (intro conjI impI)
  show "opened_urls (authenticate env url callbackScheme) =
     (if listener_ready env
      then [c_wstr (map widen
              (url @ (if CHR ''?'' \<in> set url then ''&'' else ''?'')
               @ ''redirect_uri=http://127.0.0.1:'' @ to_string (uint (assigned_port env))
               @ ''/callback''))]
      else [])"
    unfolding opened_urls_authenticate fullUrl_appends by simp
next
  assume a: "\<forall>c\<in>set url. 0 < (of_char c :: nat) \<and> (of_char c :: nat) < 128"
  have "\<forall>c\<in>set (url @ ((if CHR ''?'' \<in> set url then ''&'' else ''?'')
               @ ''redirect_uri=http://127.0.0.1:'' @ to_string (uint (assigned_port env))
               @ ''/callback'')). 0 < (of_char c :: nat) \<and> (of_char c :: nat) < 128"
    using a redirect_suffix_ascii [of url "assigned_port env"]
    unfolding set_append by blast
  from c_wstr_ascii [OF this]
  show "c_wstr (map widen
              (url @ (if CHR ''?'' \<in> set url then ''&'' else ''?'')
               @ ''redirect_uri=http://127.0.0.1:'' @ to_string (uint (assigned_port env))
               @ ''/callback''))
        = map (\<lambda>c. word_of_nat (of_char c))
              (url @ (if CHR ''?'' \<in> set url then ''&'' else ''?'')
               @ ''redirect_uri=http://127.0.0.1:'' @ to_string (uint (assigned_port env))
               @ ''/callback'')"
    by simp
next
  show "foldl (\<lambda>a c. 10 * a + (of_char c - 48)) 0 (to_string (uint (assigned_port env)))
       = unat (assigned_port env)"
    by (simp only: to_string_port decimal_value)
next
  show "\<forall>c\<in>set (to_string (uint (assigned_port env))).
         48 \<le> (of_char c :: nat) \<and> (of_char c :: nat) \<le> 57"
    using decimal_digits [of "unat (assigned_port env)"] by (simp add: to_string_port)
qed


lemma decimal_51234: "decimal 51234 = ''51234''"
  by (simp add: decimal.simps [of 51234] decimal.simps [of 5123] decimal.simps [of 512]
      decimal.simps [of 51] decimal.simps [of 5] digit_char_def)

theorem browser_url_appends_redirect_uri_witness:
  "opened_urls (authenticate (example_platform example_request)
      ''https://auth.example/authorize'' ''myapp'')
   = [map (\<lambda>c. word_of_nat (of_char c))
        ''https://auth.example/authorize?redirect_uri=http://127.0.0.1:51234/callback'']
   \<and> opened_urls (authenticate (example_platform example_request)
      ''https://auth.example/authorize?client_id=1'' ''myapp'')
   = [map (\<lambda>c. word_of_nat (of_char c))
        ''https://auth.example/authorize?client_id=1&redirect_uri=http://127.0.0.1:51234/callback'']"
proof -
  let ?env = "example_platform example_request"
  have ready: "listener_ready ?env"
    by (simp add: listener_ready_def example_platform_def SOCKET_ERROR_def)
  have port: "to_string (uint (assigned_port ?env)) = ''51234''"
    by (simp add: example_platform_def to_string_def decimal_51234)
  have a1: "\<forall>c\<in>set ''https://auth.example/authorize''.
      0 < (of_char c :: nat) \<and> (of_char c :: nat) < 128"
    by simp
  have a2: "\<forall>c\<in>set ''https://auth.example/authorize?client_id=1''.
      0 < (of_char c :: nat) \<and> (of_char c :: nat) < 128"
    by simp
  have q1: "CHR ''?'' \<notin> set ''https://auth.example/authorize''"
    by simp
  have q2: "CHR ''?'' \<in> set ''https://auth.example/authorize?client_id=1''"
    by simp
  note t1 = browser_url_appends_redirect_uri [of ?env "''https://auth.example/authorize''"
        "''myapp''", unfolded port]
  note t2 = browser_url_appends_redirect_uri [of ?env
        "''https://auth.example/authorize?client_id=1''" "''myapp''", unfolded port]
  have 1: "opened_urls (authenticate ?env ''https://auth.example/authorize'' ''myapp'')
   = [map (\<lambda>c. word_of_nat (of_char c))
        (''https://auth.example/authorize'' @ ''?''
          @ ''redirect_uri=http://127.0.0.1:'' @ ''51234'' @ ''/callback'')]"
    using t1 [THEN conjunct1] t1 [THEN conjunct2, THEN conjunct1, THEN mp, OF a1] ready q1
    by (simp only: if_True if_False)
  have 2: "opened_urls (authenticate ?env ''https://auth.example/authorize?client_id=1''
      ''myapp'')
   = [map (\<lambda>c. word_of_nat (of_char c))
        (''https://auth.example/authorize?client_id=1'' @ ''&''
          @ ''redirect_uri=http://127.0.0.1:'' @ ''51234'' @ ''/callback'')]"
    using t2 [THEN conjunct1] t2 [THEN conjunct2, THEN conjunct1, THEN mp, OF a2] ready q2
    by (simp only: if_True if_False)
  show ?thesis
    unfolding 1 2 by (simp only: append.simps)
qed

end
